theory Spec2Isabelle
  imports Complex_Main "HOL-Library.Word" "HOL-Library.Monad_Syntax"
begin

section \<open>Machine arithmetic used by the example\<close>

text \<open>
  The source is \<^verbatim>\<open>example/daubechies_wavelets/find_best_daubechies_interpolator.cpp\<close>.
  \<^verbatim>\<open>Real\<close> is modelled by the exact reals. The template argument \<^verbatim>\<open>int p\<close> is an
  \<open>int\<close>, the loop variable \<^verbatim>\<open>r\<close> a \<open>nat\<close>, vectors are lists and every subscript
  is checked: a read outside the vector is \<open>None\<close>.
\<close>

text \<open>\<^verbatim>\<open>(1 << r)\<close> on a 32-bit \<^verbatim>\<open>int\<close>: the two's complement value of the shifted word.\<close>

definition shl1 :: "nat \<Rightarrow> int" where
  "shl1 r = sint (push_bit r (1 :: 32 word))"

text \<open>\<^verbatim>\<open>v.size() - 1\<close> on \<^verbatim>\<open>size_t\<close>: an empty vector wraps around to \<open>2 ^ 64 - 1\<close>.\<close>

definition size_sub1 :: "nat \<Rightarrow> nat" where
  "size_sub1 n = (if n = 0 then 2 ^ 64 - 1 else n - 1)"

text \<open>
  \<^verbatim>\<open>static_cast<size_t>(k)\<close> for a floored \<^verbatim>\<open>Real\<close>: undefined for a negative value.
  (An index past \<open>2 ^ 64\<close> is caught by the range check of the read that follows.)
\<close>

definition size_t_of :: "int \<Rightarrow> nat option" where
  "size_t_of k = (if 0 \<le> k then Some (nat k) else None)"

text \<open>\<^verbatim>\<open>v[i]\<close>, checked.\<close>

definition vec_at :: "'a list \<Rightarrow> nat \<Rightarrow> 'a option" where
  "vec_at v i = (if i < length v then Some (v ! i) else None)"

section \<open>The ad-hoc interpolators of \<^verbatim>\<open>find_best_interpolator\<close>\<close>

text \<open>The lambda \<^verbatim>\<open>linear\<close> (captures \<^verbatim>\<open>phi\<close> and \<^verbatim>\<open>r\<close>; \<^verbatim>\<open>dx\<close> is captured but unused).\<close>

definition linear :: "int \<Rightarrow> nat \<Rightarrow> real list \<Rightarrow> real \<Rightarrow> real option" where
  "linear p r phi x =
     (if x \<le> 0 \<or> x \<ge> of_int (2 * p - 1) then Some 0
      else do {
        let y = of_int (shl1 r) * x;
        let k = \<lfloor>y\<rfloor>;
        kk \<leftarrow> size_t_of k;
        let t = y - of_int k;
        a \<leftarrow> vec_at phi kk;
        b \<leftarrow> vec_at phi (kk + 1);
        Some ((1 - t) * a + t * b)
      })"

text \<open>The lambda \<^verbatim>\<open>fotaylor\<close>.\<close>

definition fotaylor :: "int \<Rightarrow> nat \<Rightarrow> real list \<Rightarrow> real list \<Rightarrow> real \<Rightarrow> real option" where
  "fotaylor p r phi phi_prime x =
     (if x \<le> 0 \<or> x \<ge> of_int (2 * p - 1) then Some 0
      else do {
        let y = of_int (shl1 r) * x;
        let k = \<lfloor>y\<rfloor>;
        kk \<leftarrow> size_t_of k;
        if y - of_int k < of_int k + 1 - y
        then do {
          let eps = (y - of_int k) / of_int (shl1 r);
          a \<leftarrow> vec_at phi kk;
          b \<leftarrow> vec_at phi_prime kk;
          Some (a + eps * b)
        }
        else do {
          let eps = (y - of_int k - 1) / of_int (shl1 r);
          a \<leftarrow> vec_at phi (kk + 1);
          b \<leftarrow> vec_at phi_prime (kk + 1);
          Some (a + eps * b)
        }
      })"

text \<open>The lambda \<^verbatim>\<open>sotaylor\<close>.\<close>

definition sotaylor ::
  "int \<Rightarrow> nat \<Rightarrow> real list \<Rightarrow> real list \<Rightarrow> real list \<Rightarrow> real \<Rightarrow> real option" where
  "sotaylor p r phi phi_prime phi_dbl_prime x =
     (if x \<le> 0 \<or> x \<ge> of_int (2 * p - 1) then Some 0
      else do {
        let y = of_int (shl1 r) * x;
        let k = \<lfloor>y\<rfloor>;
        kk \<leftarrow> size_t_of k;
        if y - of_int k < of_int k + 1 - y
        then do {
          let eps = (y - of_int k) / of_int (shl1 r);
          a \<leftarrow> vec_at phi kk;
          b \<leftarrow> vec_at phi_prime kk;
          c \<leftarrow> vec_at phi_dbl_prime kk;
          Some (a + eps * b + eps * eps * c / 2)
        }
        else do {
          let eps = (y - of_int k - 1) / of_int (shl1 r);
          a \<leftarrow> vec_at phi (kk + 1);
          b \<leftarrow> vec_at phi_prime (kk + 1);
          c \<leftarrow> vec_at phi_dbl_prime (kk + 1);
          Some (a + eps * b + eps * eps * c / 2)
        }
      })"

text \<open>
  The lambda \<^verbatim>\<open>totaylor\<close>. Its second branch reads \<^verbatim>\<open>phi_triple_prime[kk]\<close>, not
  \<^verbatim>\<open>[kk+1]\<close>, as the source does.
\<close>

definition totaylor ::
  "int \<Rightarrow> nat \<Rightarrow> real list \<Rightarrow> real list \<Rightarrow> real list \<Rightarrow> real list \<Rightarrow> real \<Rightarrow> real option" where
  "totaylor p r phi phi_prime phi_dbl_prime phi_triple_prime x =
     (if x \<le> 0 \<or> x \<ge> of_int (2 * p - 1) then Some 0
      else do {
        let y = of_int (shl1 r) * x;
        let k = \<lfloor>y\<rfloor>;
        kk \<leftarrow> size_t_of k;
        if y - of_int k < of_int k + 1 - y
        then do {
          let eps = (y - of_int k) / of_int (shl1 r);
          a \<leftarrow> vec_at phi kk;
          b \<leftarrow> vec_at phi_prime kk;
          c \<leftarrow> vec_at phi_dbl_prime kk;
          d \<leftarrow> vec_at phi_triple_prime kk;
          Some (a + eps * b + eps * eps * c / 2 + eps * eps * eps * d / 6)
        }
        else do {
          let eps = (y - of_int k - 1) / of_int (shl1 r);
          a \<leftarrow> vec_at phi (kk + 1);
          b \<leftarrow> vec_at phi_prime (kk + 1);
          c \<leftarrow> vec_at phi_dbl_prime (kk + 1);
          d \<leftarrow> vec_at phi_triple_prime kk;
          Some (a + eps * b + eps * eps * c / 2 + eps * eps * eps * d / 6)
        }
      })"

text \<open>
  The candidate abscissas: \<^verbatim>\<open>dx = (2*p-1)/static_cast<Real>(x.size()-1)\<close> and
  \<^verbatim>\<open>x[i] = i*dx\<close> for a vector \<^verbatim>\<open>x\<close> of \<open>n\<close> entries.
\<close>

definition grid_dx :: "int \<Rightarrow> nat \<Rightarrow> real" where
  "grid_dx p n = of_int (2 * p - 1) / real (size_sub1 n)"

definition abscissas :: "nat \<Rightarrow> real \<Rightarrow> real list" where
  "abscissas n dx = map (\<lambda>i. real i * dx) [0..<n]"

text \<open>The number of points of the dyadic grid of level \<open>r\<close>: \<open>(2p - 1) 2\<^sup>r + 1\<close>.\<close>

definition grid_points :: "int \<Rightarrow> nat \<Rightarrow> nat" where
  "grid_points p r = nat ((2 * p - 1) * 2 ^ r + 1)"


section \<open>The library the example calls\<close>

text \<open>
  The Boost.Math functions called by the example (\<^verbatim>\<open>boost::math::detail::dyadic_grid\<close>,
  \<^verbatim>\<open>matched_holder\<close> and the interpolators of \<^verbatim>\<open>boost::math::interpolators\<close>) are not
  part of the file. They are parameters of the model: \<open>dyadic_grid L p k r\<close> is
  \<^verbatim>\<open>dyadic_grid<Real, p, k>(r)\<close>, and an interpolator applied to its constructor
  arguments is the function of the abscissa its \<^verbatim>\<open>operator()\<close> computes. A library
  call that throws is not modelled. The function \<^verbatim>\<open>choose_refinement\<close> of the file is never
  called (its calls in \<^verbatim>\<open>main\<close> are commented out) and is left out.
\<close>

record lib =
  dyadic_grid :: "int \<Rightarrow> nat \<Rightarrow> nat \<Rightarrow> real list"
  matched_holder :: "real list \<Rightarrow> real list \<Rightarrow> nat \<Rightarrow> real \<Rightarrow> real"
  cardinal_quadratic_b_spline :: "real list \<Rightarrow> real \<Rightarrow> real \<Rightarrow> real \<Rightarrow> real \<Rightarrow> real \<Rightarrow> real"
  cardinal_cubic_b_spline :: "real list \<Rightarrow> real \<Rightarrow> real \<Rightarrow> real \<Rightarrow> real \<Rightarrow> real \<Rightarrow> real"
  cardinal_quintic_b_spline ::
    "real list \<Rightarrow> real \<Rightarrow> real \<Rightarrow> real \<times> real \<Rightarrow> real \<times> real \<Rightarrow> real \<Rightarrow> real"
  cardinal_cubic_hermite :: "real list \<Rightarrow> real list \<Rightarrow> real \<Rightarrow> real \<Rightarrow> real \<Rightarrow> real"
  pchip :: "real list \<Rightarrow> real list \<Rightarrow> real \<Rightarrow> real"
  makima :: "real list \<Rightarrow> real list \<Rightarrow> real \<Rightarrow> real"
  cardinal_quintic_hermite ::
    "real list \<Rightarrow> real list \<Rightarrow> real list \<Rightarrow> real \<Rightarrow> real \<Rightarrow> real \<Rightarrow> real"
  cardinal_septic_hermite ::
    "real list \<Rightarrow> real list \<Rightarrow> real list \<Rightarrow> real list \<Rightarrow> real \<Rightarrow> real \<Rightarrow> real \<Rightarrow> real"

section \<open>Output streams, the map of errors and the state\<close>

text \<open>
  What \<^verbatim>\<open>operator<<\<close> receives, one token per call. How a \<^verbatim>\<open>Real\<close> is printed
  (\<^verbatim>\<open>setprecision\<close>, \<^verbatim>\<open>std::fixed\<close>) is left to the stream.
\<close>

datatype tok = Str string | IntT int | RealT real

text \<open>
  The calls into the library, in the order they are made: a dyadic grid (\<open>p\<close>, the order
  of the derivative, the level), or the construction of an interpolant and its sup-norm
  loop, named as the error is inserted into \<^verbatim>\<open>m\<close>.
\<close>

datatype call = Dyadic_grid int nat nat | Evaluate string

text \<open>
  \<^verbatim>\<open>std::map<Real, std::string> m\<close>: the entries in increasing key order.
  \<^verbatim>\<open>m.insert\<close> leaves the map unchanged when the key is already there.
\<close>

fun map_insert :: "real \<times> string \<Rightarrow> (real \<times> string) list \<Rightarrow> (real \<times> string) list" where
  "map_insert (k, v) [] = [(k, v)]"
| "map_insert (k, v) ((k', v') # es) =
     (if k < k' then (k, v) # (k', v') # es
      else if k = k' then (k', v') # es
      else (k', v') # map_insert (k, v) es)"

text \<open>
  The state of \<^verbatim>\<open>find_best_interpolator\<close>: the file stream \<^verbatim>\<open>fs\<close>, \<^verbatim>\<open>std::cout\<close>, the
  library calls made so far, and the locals \<^verbatim>\<open>m\<close>, \<^verbatim>\<open>best\<close> and \<^verbatim>\<open>best_sup\<close> of the
  loop over \<^verbatim>\<open>r\<close>.
\<close>

record st =
  fs :: "tok list"
  cout :: "tok list"
  calls :: "call list"
  m_map :: "(real \<times> string) list"
  best :: string
  best_sup :: real

section \<open>The sup-norm loops\<close>

text \<open>
  \<^verbatim>\<open>for (size_t i = 0; i < n; ++i) { Real x = i*dx_dense;
  Real diff = abs(phi_dense[i] - f(x)); if (diff > sup) { sup = diff; } }\<close>,
  started at \<open>i\<close> with the running maximum \<open>sup0\<close>.
\<close>

function sup_loop ::
  "(real \<Rightarrow> real option) \<Rightarrow> real list \<Rightarrow> real \<Rightarrow> nat \<Rightarrow> nat \<Rightarrow> real \<Rightarrow> real option" where
  "sup_loop f phi_dense dx_dense i n sup0 =
     (if i < n then do {
        let x = real i * dx_dense;
        d \<leftarrow> vec_at phi_dense i;
        v \<leftarrow> f x;
        let diff = \<bar>d - v\<bar>;
        sup_loop f phi_dense dx_dense (i + 1) n (if diff > sup0 then diff else sup0)
      } else Some sup0)"
  by pat_completeness auto
termination
  by (relation "measure (\<lambda>(f, phi_dense, dx_dense, i, n, sup0). n - i)") auto

declare sup_loop.simps [simp del]

text \<open>
  One block of the loop body: the sup-norm loop of the scheme, \<^verbatim>\<open>m.insert({sup, name})\<close>
  and \<^verbatim>\<open>fs << sup << sep\<close>.
\<close>

definition scheme_block ::
  "string \<Rightarrow> (real \<Rightarrow> real option) \<Rightarrow> real list \<Rightarrow> real \<Rightarrow> nat \<Rightarrow> string \<Rightarrow> st \<Rightarrow> st option" where
  "scheme_block name f phi_dense dx_dense n sep s = do {
     sup0 \<leftarrow> sup_loop f phi_dense dx_dense 0 n 0;
     Some (s\<lparr>calls := calls s @ [Evaluate name],
             m_map := map_insert (sup0, name) (m_map s),
             fs := fs s @ [RealT sup0, Str sep]\<rparr>)
   }"

section \<open>Choosing the best method\<close>

text \<open>
  \<^verbatim>\<open>for (auto & e : m) { std::cout << "\t" << e.first << " is error of " << e.second << "\n";
  if (e.first < best_sup) { best = e.second; best_sup = e.first; } }\<close>
\<close>

fun best_loop :: "(real \<times> string) list \<Rightarrow> st \<Rightarrow> st" where
  "best_loop [] s = s"
| "best_loop (e # es) s =
     best_loop es
       (let s1 = s\<lparr>cout := cout s @ [Str [CHR 0x09], RealT (fst e), Str '' is error of '',
                                       Str (snd e), Str ''\<newline>'']\<rparr>
        in if fst e < best_sup s1 then s1\<lparr>best := snd e, best_sup := fst e\<rparr> else s1)"

text \<open>
  \<^verbatim>\<open>std::string best = "none"; Real best_sup = 1000000000;\<close>, the loop over \<^verbatim>\<open>m\<close> and the
  line that names the best method.
\<close>

definition choose_best :: "int \<Rightarrow> st \<Rightarrow> st" where
  "choose_best p s =
     (let s1 = best_loop (m_map s) (s\<lparr>best := ''none'', best_sup := 1000000000\<rparr>)
      in s1\<lparr>cout := cout s1 @ [Str (CHR 0x09 # ''The best method for p = ''), IntT p,
                                  Str '' is the '', Str (best s1), Str ''\<newline>'']\<rparr>)"

section \<open>The body of the loop over \<^verbatim>\<open>r\<close>\<close>

text \<open>\<^verbatim>\<open>if constexpr (p > 2)\<close>: the quintic Hermite spline and the second-order Taylor series.\<close>

definition blocks_gt2 :: "lib \<Rightarrow> int \<Rightarrow> real list \<Rightarrow> real \<Rightarrow> nat \<Rightarrow> real list \<Rightarrow> real list \<Rightarrow> real \<Rightarrow> st \<Rightarrow> st option" where
  "blocks_gt2 L p phi_dense dx_dense r phi phi_prime dx s0 = do {
     let phi_dbl_prime = dyadic_grid L p 2 r;
     let s = s0\<lparr>calls := calls s0 @ [Dyadic_grid p 2 r]\<rparr>;
     s \<leftarrow> scheme_block ''quintic_hermite_spline''
            (\<lambda>x. Some (cardinal_quintic_hermite L phi phi_prime phi_dbl_prime 0 dx x))
            phi_dense dx_dense (length phi_dense) '', '' s;
     scheme_block ''Second-order Taylor'' (sotaylor p r phi phi_prime phi_dbl_prime)
       phi_dense dx_dense (length phi_dense) (if p > 3 then '', '' else ''\<newline>'') s
   }"

text \<open>\<^verbatim>\<open>if constexpr (p > 3)\<close>: the third-order Taylor series and the septic Hermite spline.\<close>

definition blocks_gt3 :: "lib \<Rightarrow> int \<Rightarrow> real list \<Rightarrow> real \<Rightarrow> nat \<Rightarrow> real list \<Rightarrow> real list \<Rightarrow> real \<Rightarrow> st \<Rightarrow> st option" where
  "blocks_gt3 L p phi_dense dx_dense r phi phi_prime dx s0 = do {
     let phi_dbl_prime = dyadic_grid L p 2 r;
     let phi_triple_prime = dyadic_grid L p 3 r;
     let s = s0\<lparr>calls := calls s0 @ [Dyadic_grid p 2 r, Dyadic_grid p 3 r]\<rparr>;
     s \<leftarrow> scheme_block ''Third-order Taylor''
            (totaylor p r phi phi_prime phi_dbl_prime phi_triple_prime)
            phi_dense dx_dense (length phi_dense) '', '' s;
     scheme_block ''septic_hermite_spline''
       (\<lambda>x. Some (cardinal_septic_hermite L phi phi_prime phi_dbl_prime phi_triple_prime 0 dx x))
       phi_dense dx_dense (length phi_dense) ''\<newline>'' s
   }"

text \<open>
  One iteration of \<^verbatim>\<open>for (int r = 2; r < rmax-1; ++r)\<close>. The matched Holder block stops at
  \<^verbatim>\<open>phi_dense.size() - 1\<close>; \<^verbatim>\<open>phi_prime.front()\<close> and \<^verbatim>\<open>phi_prime.back()\<close> need a
  non-empty vector.
\<close>

definition r_body :: "lib \<Rightarrow> int \<Rightarrow> real list \<Rightarrow> real \<Rightarrow> nat \<Rightarrow> st \<Rightarrow> st option" where
  "r_body L p phi_dense dx_dense r s0 = do {
     let s = s0\<lparr>fs := fs s0 @ [IntT (int r), Str '', ''], m_map := []\<rparr>;
     let phi = dyadic_grid L p 0 r;
     let phi_prime = dyadic_grid L p 1 r;
     let s = s\<lparr>calls := calls s @ [Dyadic_grid p 0 r, Dyadic_grid p 1 r]\<rparr>;
     let dx = grid_dx p (length phi);
     let s = s\<lparr>cout := cout s @ [Str ''dx = 1/'', IntT (shl1 r), Str '' = '', RealT dx,
                                 Str ''\<newline>'']\<rparr>;
     let x = abscissas (length phi) dx;
     s \<leftarrow> scheme_block ''matched_holder'' (\<lambda>t. Some (matched_holder L phi phi_prime r t))
            phi_dense dx_dense (size_sub1 (length phi_dense)) '', '' s;
     s \<leftarrow> scheme_block ''linear interpolation'' (linear p r phi)
            phi_dense dx_dense (length phi_dense) '', '' s;
     s \<leftarrow> (if phi_prime = [] then None
          else scheme_block ''quadratic_b_spline''
            (\<lambda>t. Some (cardinal_quadratic_b_spline L phi 0 dx (hd phi_prime) (last phi_prime) t))
            phi_dense dx_dense (length phi_dense) '', '' s);
     s \<leftarrow> (if phi_prime = [] then None
          else scheme_block ''cubic_b_spline''
            (\<lambda>t. Some (cardinal_cubic_b_spline L phi 0 dx (hd phi_prime) (last phi_prime) t))
            phi_dense dx_dense (length phi_dense) '', '' s);
     s \<leftarrow> scheme_block ''quintic_b_spline''
            (\<lambda>t. Some (cardinal_quintic_b_spline L phi 0 dx (0, 0) (0, 0) t))
            phi_dense dx_dense (length phi_dense) '', '' s;
     s \<leftarrow> scheme_block ''cubic_hermite_spline''
            (\<lambda>t. Some (cardinal_cubic_hermite L phi phi_prime 0 dx t))
            phi_dense dx_dense (length phi_dense) '', '' s;
     s \<leftarrow> scheme_block ''pchip'' (\<lambda>t. Some (pchip L x phi t))
            phi_dense dx_dense (length phi_dense) '', '' s;
     s \<leftarrow> scheme_block ''makima'' (\<lambda>t. Some (makima L x phi t))
            phi_dense dx_dense (length phi_dense) '', '' s;
     s \<leftarrow> scheme_block ''First-order Taylor'' (fotaylor p r phi phi_prime)
            phi_dense dx_dense (length phi_dense) (if p = 2 then ''\<newline>'' else '', '') s;
     s \<leftarrow> (if p > 2 then blocks_gt2 L p phi_dense dx_dense r phi phi_prime dx s else Some s);
     s \<leftarrow> (if p > 3 then blocks_gt3 L p phi_dense dx_dense r phi phi_prime dx s else Some s);
     Some (choose_best p s)
   }"

function r_loop :: "lib \<Rightarrow> int \<Rightarrow> real list \<Rightarrow> real \<Rightarrow> nat \<Rightarrow> nat \<Rightarrow> st \<Rightarrow> st option" where
  "r_loop L p phi_dense dx_dense r rmax s =
     (if r < rmax - 1 then do {
        s' \<leftarrow> r_body L p phi_dense dx_dense r s;
        r_loop L p phi_dense dx_dense (r + 1) rmax s'
      } else Some s)"
  by pat_completeness auto
termination
  by (relation "measure (\<lambda>(L, p, phi_dense, dx_dense, r, rmax, s). rmax - r)") auto

declare r_loop.simps [simp del]

section \<open>\<^verbatim>\<open>find_best_interpolator\<close> and \<^verbatim>\<open>main\<close>\<close>

text \<open>\<^verbatim>\<open>std::to_string\<close> of an \<^verbatim>\<open>int\<close>.\<close>

definition digit :: "nat \<Rightarrow> char" where
  "digit n = ''0123456789'' ! n"

fun string_of_nat :: "nat \<Rightarrow> string" where
  "string_of_nat n =
     (if n < 10 then [digit n] else string_of_nat (n div 10) @ [digit (n mod 10)])"

declare string_of_nat.simps [simp del]

definition to_string :: "int \<Rightarrow> string" where
  "to_string i = (if i < 0 then CHR ''-'' # string_of_nat (nat (- i)) else string_of_nat (nat i))"

text \<open>
  What the program leaves behind: the files written (by name), the console and the
  library calls.
\<close>

record world =
  files :: "string \<rightharpoonup> tok list"
  console :: "tok list"
  lib_calls :: "call list"

text \<open>The header line of the CSV file.\<close>

definition header :: "int \<Rightarrow> tok list" where
  "header p =
     Str ''r, matched_holder, linear, quadratic_b_spline, cubic_b_spline, quintic_b_spline, cubic_hermite, pchip, makima, fo_taylor''
     # (if p = 2 then [Str ''\<newline>'']
        else Str '', quintic_hermite, second_order_taylor''
          # (if p > 3 then [Str '', third_order_taylor, septic_hermite\<newline>'']
             else [Str ''\<newline>'']))"

text \<open>
  \<^verbatim>\<open>find_best_interpolator<Real, PreciseReal, p>()\<close>. Both \<^verbatim>\<open>Real\<close> and \<^verbatim>\<open>PreciseReal\<close> are
  the reals here, so the \<^verbatim>\<open>static_cast<Real>\<close> of the copy into \<^verbatim>\<open>phi_dense\<close> is the
  identity. The file is opened afresh (\<^verbatim>\<open>std::ofstream fs{filename}\<close>) and holds what
  was written to \<^verbatim>\<open>fs\<close> when the function returns.
\<close>

definition find_best_interpolator :: "lib \<Rightarrow> int \<Rightarrow> world \<Rightarrow> world option" where
  "find_best_interpolator L p w = do {
     let filename = ''daubechies_'' @ to_string p @ ''_scaling_convergence.csv'';
     let s = \<lparr>fs = [], cout = console w, calls = lib_calls w, m_map = [], best = [],
              best_sup = 0\<rparr>;
     let rmax = 17;
     let s = s\<lparr>cout := cout s @ [Str ''Computing phi_dense_precise\<newline>'']\<rparr>;
     let phi_dense_precise = dyadic_grid L p 0 rmax;
     let s = s\<lparr>calls := calls s @ [Dyadic_grid p 0 rmax]\<rparr>;
     let phi_dense = map (\<lambda>v. v) phi_dense_precise;
     let s = s\<lparr>cout := cout s @ [Str ''Done\<newline>'']\<rparr>;
     let dx_dense = of_int (2 * p - 1) / real (size_sub1 (length phi_dense));
     let s = s\<lparr>fs := fs s @ header p\<rparr>;
     s \<leftarrow> r_loop L p phi_dense dx_dense 2 rmax s;
     Some (w\<lparr>files := (files w)(filename \<mapsto> fs s), console := cout s, lib_calls := calls s\<rparr>)
   }"

definition main :: "lib \<Rightarrow> world \<Rightarrow> world option" where
  "main L w = do {
     w \<leftarrow> find_best_interpolator L 2 w;
     w \<leftarrow> find_best_interpolator L 3 w;
     w \<leftarrow> find_best_interpolator L 4 w;
     w \<leftarrow> find_best_interpolator L 5 w;
     w \<leftarrow> find_best_interpolator L 6 w;
     w \<leftarrow> find_best_interpolator L 7 w;
     w \<leftarrow> find_best_interpolator L 8 w;
     w \<leftarrow> find_best_interpolator L 9 w;
     w \<leftarrow> find_best_interpolator L 10 w;
     w \<leftarrow> find_best_interpolator L 11 w;
     w \<leftarrow> find_best_interpolator L 12 w;
     w \<leftarrow> find_best_interpolator L 13 w;
     w \<leftarrow> find_best_interpolator L 14 w;
     find_best_interpolator L 15 w
   }"

text \<open>The state before the program starts.\<close>

definition world0 :: world where
  "world0 = \<lparr>files = Map.empty, console = [], lib_calls = []\<rparr>"

section \<open>Notions used to state the properties\<close>

text \<open>
  \<open>e\<close> is the largest deviation \<open>\<bar>phi_dense[i] - f (i dx_dense)\<bar>\<close> over the indices
  \<open>i < n\<close>: no deviation exceeds it and one of them attains it.
\<close>

definition is_sup_error :: "(real \<Rightarrow> real option) \<Rightarrow> real list \<Rightarrow> real \<Rightarrow> nat \<Rightarrow> real \<Rightarrow> bool" where
  "is_sup_error f phi_dense dx_dense n e \<longleftrightarrow>
     (\<forall>i \<in> {0..<n}. case f (real i * dx_dense) of None \<Rightarrow> False
                       | Some v \<Rightarrow> \<bar>phi_dense ! i - v\<bar> \<le> e)
     \<and> (\<exists>i \<in> {0..<n}. case f (real i * dx_dense) of None \<Rightarrow> False
                       | Some v \<Rightarrow> e = \<bar>phi_dense ! i - v\<bar>)"

text \<open>
  The value a sup-norm loop over \<open>n\<close> points returns when it returns one.
\<close>

definition sup_of :: "real list \<Rightarrow> real \<Rightarrow> (real \<Rightarrow> real option) \<Rightarrow> nat \<Rightarrow> real" where
  "sup_of phi_dense dx_dense f n = the (sup_loop f phi_dense dx_dense 0 n 0)"

text \<open>
  The loop body as a table, in the order of the source: a sup-norm block (the name under
  which the error is inserted into \<^verbatim>\<open>m\<close>, the function evaluated, the number of reference
  points visited, the separator written after the error) or a call of the library.
  \<open>run_steps\<close> executes a table; lemma \<open>r_body_steps\<close> below shows that \<open>r_body\<close> is the
  execution of \<open>body_steps\<close>.
\<close>

datatype step = Sup string "real \<Rightarrow> real option" nat string | Lib call

fun run_steps :: "step list \<Rightarrow> real list \<Rightarrow> real \<Rightarrow> st \<Rightarrow> st option" where
  "run_steps [] phi_dense dx_dense s = Some s"
| "run_steps (Sup name f n sep # steps) phi_dense dx_dense s =
     Option.bind (scheme_block name f phi_dense dx_dense n sep s) (run_steps steps phi_dense dx_dense)"
| "run_steps (Lib c # steps) phi_dense dx_dense s =
     run_steps steps phi_dense dx_dense (s\<lparr>calls := calls s @ [c]\<rparr>)"

definition body_steps :: "lib \<Rightarrow> int \<Rightarrow> nat \<Rightarrow> nat \<Rightarrow> step list" where
  "body_steps L p r n =
     (let phi = dyadic_grid L p 0 r;
          phi_prime = dyadic_grid L p 1 r;
          phi_dbl_prime = dyadic_grid L p 2 r;
          phi_triple_prime = dyadic_grid L p 3 r;
          dx = grid_dx p (length phi);
          x = abscissas (length phi) dx
      in [Sup ''matched_holder'' (\<lambda>t. Some (matched_holder L phi phi_prime r t)) (size_sub1 n) '', '',
          Sup ''linear interpolation'' (linear p r phi) n '', '',
          Sup ''quadratic_b_spline''
            (\<lambda>t. Some (cardinal_quadratic_b_spline L phi 0 dx (hd phi_prime) (last phi_prime) t)) n '', '',
          Sup ''cubic_b_spline''
            (\<lambda>t. Some (cardinal_cubic_b_spline L phi 0 dx (hd phi_prime) (last phi_prime) t)) n '', '',
          Sup ''quintic_b_spline'' (\<lambda>t. Some (cardinal_quintic_b_spline L phi 0 dx (0, 0) (0, 0) t)) n '', '',
          Sup ''cubic_hermite_spline'' (\<lambda>t. Some (cardinal_cubic_hermite L phi phi_prime 0 dx t)) n '', '',
          Sup ''pchip'' (\<lambda>t. Some (pchip L x phi t)) n '', '',
          Sup ''makima'' (\<lambda>t. Some (makima L x phi t)) n '', '',
          Sup ''First-order Taylor'' (fotaylor p r phi phi_prime) n
            (if p = 2 then ''\<newline>'' else '', '')]
        @ (if p > 2
           then [Lib (Dyadic_grid p 2 r),
                 Sup ''quintic_hermite_spline''
                   (\<lambda>t. Some (cardinal_quintic_hermite L phi phi_prime phi_dbl_prime 0 dx t)) n '', '',
                 Sup ''Second-order Taylor'' (sotaylor p r phi phi_prime phi_dbl_prime) n
                   (if p > 3 then '', '' else ''\<newline>'')]
           else [])
        @ (if p > 3
           then [Lib (Dyadic_grid p 2 r), Lib (Dyadic_grid p 3 r),
                 Sup ''Third-order Taylor''
                   (totaylor p r phi phi_prime phi_dbl_prime phi_triple_prime) n '', '',
                 Sup ''septic_hermite_spline''
                   (\<lambda>t. Some (cardinal_septic_hermite L phi phi_prime phi_dbl_prime phi_triple_prime 0 dx t))
                   n ''\<newline>'']
           else []))"

text \<open>
  The state when the first block starts: \<^verbatim>\<open>fs << r << ", "\<close>, a fresh \<^verbatim>\<open>m\<close>, the two grids
  fetched and the line \<^verbatim>\<open>dx = 1/...\<close> printed.
\<close>

definition body_start :: "lib \<Rightarrow> int \<Rightarrow> nat \<Rightarrow> st \<Rightarrow> st" where
  "body_start L p r s =
     s\<lparr>fs := fs s @ [IntT (int r), Str '', ''],
       m_map := [],
       calls := calls s @ [Dyadic_grid p 0 r, Dyadic_grid p 1 r],
       cout := cout s @ [Str ''dx = 1/'', IntT (shl1 r), Str '' = '',
                         RealT (grid_dx p (length (dyadic_grid L p 0 r))), Str ''\<newline>'']\<rparr>"

text \<open>
  What a table leaves behind: the library calls, the tokens written to \<^verbatim>\<open>fs\<close> and the
  pairs passed to \<^verbatim>\<open>m.insert\<close>, in order.
\<close>

fun step_call :: "step \<Rightarrow> call" where
  "step_call (Sup name f n sep) = Evaluate name"
| "step_call (Lib c) = c"

fun step_cells :: "real list \<Rightarrow> real \<Rightarrow> step \<Rightarrow> tok list" where
  "step_cells phi_dense dx_dense (Sup name f n sep) = [RealT (sup_of phi_dense dx_dense f n), Str sep]"
| "step_cells phi_dense dx_dense (Lib c) = []"

fun recorded :: "real list \<Rightarrow> real \<Rightarrow> step list \<Rightarrow> (real \<times> string) list" where
  "recorded phi_dense dx_dense [] = []"
| "recorded phi_dense dx_dense (Sup name f n sep # steps) =
     (sup_of phi_dense dx_dense f n, name) # recorded phi_dense dx_dense steps"
| "recorded phi_dense dx_dense (Lib c # steps) = recorded phi_dense dx_dense steps"

text \<open>
  A block returns a value; a block has a total function and visits all \<open>m\<close> reference
  points, or all but the last one for the matched Holder scheme; the error of a block is
  the largest deviation over the points it visits.
\<close>

fun step_ok :: "real list \<Rightarrow> real \<Rightarrow> step \<Rightarrow> bool" where
  "step_ok phi_dense dx_dense (Sup name f n sep) = (sup_loop f phi_dense dx_dense 0 n 0 \<noteq> None)"
| "step_ok phi_dense dx_dense (Lib c) = True"

fun step_shape :: "nat \<Rightarrow> step \<Rightarrow> bool" where
  "step_shape m (Sup name f n sep) =
     ((\<forall>x. f x \<noteq> None) \<and> n = (if name = ''matched_holder'' then size_sub1 m else m))"
| "step_shape m (Lib c) = True"

fun step_sup_error :: "real list \<Rightarrow> real \<Rightarrow> step \<Rightarrow> bool" where
  "step_sup_error phi_dense dx_dense (Sup name f n sep) =
     (n = (if name = ''matched_holder'' then length phi_dense - 1 else length phi_dense)
      \<and> is_sup_error f phi_dense dx_dense n (sup_of phi_dense dx_dense f n))"
| "step_sup_error phi_dense dx_dense (Lib c) = True"

text \<open>
  The names of the schemes evaluated, from the library calls.
\<close>

fun evaluated :: "call list \<Rightarrow> string list" where
  "evaluated [] = []"
| "evaluated (Evaluate name # cs) = name # evaluated cs"
| "evaluated (Dyadic_grid p k r # cs) = evaluated cs"

text \<open>
  The dyadic grids of level \<open>r\<close> (the function and its first three derivatives) have
  \<open>(2p - 1) 2\<^sup>r + 1\<close> points, as \<^verbatim>\<open>dyadic_grid\<close> returns them.
\<close>

definition grids_ok :: "lib \<Rightarrow> int \<Rightarrow> nat \<Rightarrow> bool" where
  "grids_ok L p r \<longleftrightarrow> (\<forall>k \<in> {0, 1, 2, 3}. length (dyadic_grid L p k r) = grid_points p r)"

text \<open>
  A library for concrete runs: grids of the right size filled with zeros, and
  interpolators that are zero everywhere. \<open>st0\<close> is an empty state.
\<close>

definition lib0 :: lib where
  "lib0 = \<lparr>dyadic_grid = (\<lambda>p k r. replicate (grid_points p r) 0),
           matched_holder = (\<lambda>phi phi_prime r x. 0),
           cardinal_quadratic_b_spline = (\<lambda>phi t0 h l r x. 0),
           cardinal_cubic_b_spline = (\<lambda>phi t0 h l r x. 0),
           cardinal_quintic_b_spline = (\<lambda>phi t0 h l r x. 0),
           cardinal_cubic_hermite = (\<lambda>phi phi_prime t0 h x. 0),
           pchip = (\<lambda>xs phi x. 0),
           makima = (\<lambda>xs phi x. 0),
           cardinal_quintic_hermite = (\<lambda>phi phi_prime phi_dbl_prime t0 h x. 0),
           cardinal_septic_hermite = (\<lambda>phi phi_prime phi_dbl_prime phi_triple_prime t0 h x. 0)\<rparr>"

definition st0 :: st where
  "st0 = \<lparr>fs = [], cout = [], calls = [], m_map = [], best = [], best_sup = 0\<rparr>"

text \<open>
  What one iteration of the loop over \<open>r\<close> writes to \<^verbatim>\<open>fs\<close> and the library calls it
  makes; the library calls of one invocation of \<^verbatim>\<open>find_best_interpolator\<close>; the name of its
  file.
\<close>

definition row_tokens :: "lib \<Rightarrow> int \<Rightarrow> real list \<Rightarrow> real \<Rightarrow> nat \<Rightarrow> tok list" where
  "row_tokens L p phi_dense dx_dense r =
     [IntT (int r), Str '', '']
     @ concat (map (step_cells phi_dense dx_dense) (body_steps L p r (length phi_dense)))"

definition body_calls :: "lib \<Rightarrow> int \<Rightarrow> nat \<Rightarrow> nat \<Rightarrow> call list" where
  "body_calls L p n r =
     [Dyadic_grid p 0 r, Dyadic_grid p 1 r] @ map step_call (body_steps L p r n)"

definition invocation_calls :: "lib \<Rightarrow> int \<Rightarrow> call list" where
  "invocation_calls L p =
     Dyadic_grid p 0 17
     # concat (map (body_calls L p (length (dyadic_grid L p 0 17))) [2..<16])"

definition file_name :: "int \<Rightarrow> string" where
  "file_name p = ''daubechies_'' @ to_string p @ ''_scaling_convergence.csv''"

text \<open>
  Reading the file as CSV. The characters of the stream, with the numbers as printed
  left whole (a printed number holds neither a comma nor a line break); rows end at a line
  break and cells are separated by commas.
\<close>

datatype atom = Ch char | IntA int | RealA real

fun atoms :: "tok list \<Rightarrow> atom list" where
  "atoms [] = []"
| "atoms (Str s # ts) = map Ch s @ atoms ts"
| "atoms (IntT i # ts) = IntA i # atoms ts"
| "atoms (RealT x # ts) = RealA x # atoms ts"

fun split_at :: "'a \<Rightarrow> 'a list \<Rightarrow> 'a list list" where
  "split_at c [] = [[]]"
| "split_at c (x # xs) =
     (if x = c then [] # split_at c xs
      else (case split_at c xs of [] \<Rightarrow> [[x]] | y # ys \<Rightarrow> (x # y) # ys))"

definition csv_rows :: "atom list \<Rightarrow> atom list list" where
  "csv_rows as = (let ls = split_at (Ch CHR ''\<newline>'') as in if last ls = [] then butlast ls else ls)"

definition csv_table :: "tok list \<Rightarrow> atom list list list" where
  "csv_table ts = map (split_at (Ch CHR '','')) (csv_rows (atoms ts))"

text \<open>
  The cells of the header row for \<open>p\<close>, the cells of a data row, and the two kinds of
  lines before they are split into cells.
\<close>

definition columns :: "int \<Rightarrow> string list" where
  "columns p =
     [''r'', '' matched_holder'', '' linear'', '' quadratic_b_spline'', '' cubic_b_spline'',
      '' quintic_b_spline'', '' cubic_hermite'', '' pchip'', '' makima'', '' fo_taylor'']
     @ (if p = 2 then []
        else ['' quintic_hermite'', '' second_order_taylor'']
          @ (if p > 3 then ['' third_order_taylor'', '' septic_hermite''] else []))"

definition data_cells :: "nat \<Rightarrow> real list \<Rightarrow> atom list list" where
  "data_cells r es = [IntA (int r)] # map (\<lambda>e. [Ch CHR '' '', RealA e]) es"

definition row_line :: "nat \<Rightarrow> real list \<Rightarrow> atom list" where
  "row_line r es = IntA (int r) # concat (map (\<lambda>e. [Ch CHR '','', Ch CHR '' '', RealA e]) es)"

definition header_line :: "int \<Rightarrow> atom list" where
  "header_line p = map Ch (tl (concat (map ((#) CHR '','') (columns p))))"

text \<open>
  The reference grid of an invocation is \<open>dyadic_grid L p 0 17\<close>; \<open>reference_dx\<close> is its
  spacing \<^verbatim>\<open>dx_dense\<close>. \<open>file_content\<close> is the header followed by the rows for
  \<open>r = 2, \<dots>, 15\<close>, each computed against the reference grid; \<open>sweep_files\<close> are the names of
  the fourteen files of the program.
\<close>

definition reference_dx :: "lib \<Rightarrow> int \<Rightarrow> real" where
  "reference_dx L p = of_int (2 * p - 1) / real (size_sub1 (length (dyadic_grid L p 0 17)))"

definition file_content :: "lib \<Rightarrow> int \<Rightarrow> tok list" where
  "file_content L p =
     header p @ concat (map (row_tokens L p (dyadic_grid L p 0 17) (reference_dx L p)) [2..<16])"

definition sweep_files :: "string list" where
  "sweep_files =
     [''daubechies_2_scaling_convergence.csv'', ''daubechies_3_scaling_convergence.csv'',
      ''daubechies_4_scaling_convergence.csv'', ''daubechies_5_scaling_convergence.csv'',
      ''daubechies_6_scaling_convergence.csv'', ''daubechies_7_scaling_convergence.csv'',
      ''daubechies_8_scaling_convergence.csv'', ''daubechies_9_scaling_convergence.csv'',
      ''daubechies_10_scaling_convergence.csv'', ''daubechies_11_scaling_convergence.csv'',
      ''daubechies_12_scaling_convergence.csv'', ''daubechies_13_scaling_convergence.csv'',
      ''daubechies_14_scaling_convergence.csv'', ''daubechies_15_scaling_convergence.csv'']"

text \<open>
  The numbers written in a row; the sup-norm blocks of a table; and what it means for a
  number to be the error of a block: the block visits all reference points (all but the
  last for the matched Holder scheme) and the number is the largest deviation over the
  points visited. \<open>column_schemes\<close> pairs the column names of the header with the names
  under which the errors are inserted into \<^verbatim>\<open>m\<close>.
\<close>

fun reals_of :: "tok list \<Rightarrow> real list" where
  "reals_of [] = []"
| "reals_of (RealT x # ts) = x # reals_of ts"
| "reals_of (Str s # ts) = reals_of ts"
| "reals_of (IntT i # ts) = reals_of ts"

fun sup_steps :: "step list \<Rightarrow> (string \<times> (real \<Rightarrow> real option) \<times> nat) list" where
  "sup_steps [] = []"
| "sup_steps (Sup name f n sep # steps) = (name, f, n) # sup_steps steps"
| "sup_steps (Lib c # steps) = sup_steps steps"

fun is_cell_error :: "real list \<Rightarrow> real \<Rightarrow> real \<Rightarrow> string \<times> (real \<Rightarrow> real option) \<times> nat \<Rightarrow> bool" where
  "is_cell_error phi_dense dx_dense e (name, f, n) =
     (n = (if name = ''matched_holder'' then length phi_dense - 1 else length phi_dense)
      \<and> is_sup_error f phi_dense dx_dense n e)"

definition column_schemes :: "(string \<times> string) list" where
  "column_schemes =
     [('' matched_holder'', ''matched_holder''), ('' linear'', ''linear interpolation''),
      ('' quadratic_b_spline'', ''quadratic_b_spline''), ('' cubic_b_spline'', ''cubic_b_spline''),
      ('' quintic_b_spline'', ''quintic_b_spline''), ('' cubic_hermite'', ''cubic_hermite_spline''),
      ('' pchip'', ''pchip''), ('' makima'', ''makima''), ('' fo_taylor'', ''First-order Taylor''),
      ('' quintic_hermite'', ''quintic_hermite_spline''),
      ('' second_order_taylor'', ''Second-order Taylor''),
      ('' third_order_taylor'', ''Third-order Taylor''),
      ('' septic_hermite'', ''septic_hermite_spline'')]"

text \<open>
  The value of a string of decimal digits.
\<close>

definition digit_value :: "char \<Rightarrow> nat" where
  "digit_value c = of_char c - 48"

definition dec_value :: "string \<Rightarrow> nat" where
  "dec_value ds = foldl (\<lambda>a c. 10 * a + digit_value c) 0 ds"

text \<open>
  A second library for concrete runs: grids that alternate between \<open>0\<close> and \<open>1\<close>, and
  interpolants that differ from one another.
\<close>

definition lib1 :: lib where
  "lib1 = \<lparr>dyadic_grid = (\<lambda>p k r. map (\<lambda>i. real (i mod 2)) [0..<grid_points p r]),
           matched_holder = (\<lambda>phi phi_prime r x. 1),
           cardinal_quadratic_b_spline = (\<lambda>phi t0 h l r x. x),
           cardinal_cubic_b_spline = (\<lambda>phi t0 h l r x. x / 2),
           cardinal_quintic_b_spline = (\<lambda>phi t0 h l r x. 2),
           cardinal_cubic_hermite = (\<lambda>phi phi_prime t0 h x. 1 / 4),
           pchip = (\<lambda>xs phi x. - 1),
           makima = (\<lambda>xs phi x. 3),
           cardinal_quintic_hermite = (\<lambda>phi phi_prime phi_dbl_prime t0 h x. 5),
           cardinal_septic_hermite = (\<lambda>phi phi_prime phi_dbl_prime phi_triple_prime t0 h x. 7)\<rparr>"

section \<open>Index arithmetic\<close>


lemma shl1_eq: "r < 31 \<Longrightarrow> shl1 r = 2 ^ r"
proof -
  assume r: "r < 31"
  have "(2::int) ^ r < 2 ^ 31" using r by (intro power_strict_increasing) simp_all
  moreover have "- (2 ^ 31) \<le> (2::int) ^ r"
    by (rule order_trans [of _ 0]) simp_all
  ultimately have "signed_take_bit 31 ((2::int) ^ r) = 2 ^ r"
    by (rule signed_take_bit_int_eq_self [rotated])
  moreover have "push_bit r (1 :: 32 word) = word_of_int (2 ^ r)"
    by (simp add: push_bit_of_1)
  ultimately show ?thesis
    by (simp only: shl1_def sint_sbintrunc') simp
qed

lemma floor_bounds:
  fixes x :: real
  assumes "0 < x" "x < of_int (2 * p - 1)"
  shows "0 \<le> \<lfloor>2 ^ r * x\<rfloor> \<and> nat \<lfloor>2 ^ r * x\<rfloor> + 1 < grid_points p r"
proof -
  have "0 \<le> 2 ^ r * x" using assms by simp
  then have k0: "0 \<le> \<lfloor>2 ^ r * x\<rfloor>" by simp
  have "2 ^ r * x < 2 ^ r * of_int (2 * p - 1)" using assms by simp
  then have "2 ^ r * x < of_int ((2 * p - 1) * 2 ^ r)" by (simp add: mult.commute)
  then have "\<lfloor>2 ^ r * x\<rfloor> < (2 * p - 1) * 2 ^ r" by (simp only: floor_less_iff)
  with k0 show ?thesis unfolding grid_points_def by linarith
qed

lemma index_ok:
  fixes x :: real
  assumes "r < 31" "0 < x" "x < of_int (2 * p - 1)"
  shows "\<exists>kk. size_t_of \<lfloor>of_int (shl1 r) * x\<rfloor> = Some kk \<and> kk + 1 < grid_points p r"
  using floor_bounds [OF assms(2,3), of r] assms(1)
  by (simp add: shl1_eq size_t_of_def)

lemma vec_at_Some: "i < length v \<Longrightarrow> vec_at v i = Some (v ! i)"
  by (simp add: vec_at_def)

lemma linear_outside: "x \<le> 0 \<or> x \<ge> of_int (2 * p - 1) \<Longrightarrow> linear p r phi x = Some 0"
  by (simp add: linear_def)

lemma linear_total:
  assumes "r < 31" "length phi = grid_points p r"
  shows "\<exists>v. linear p r phi x = Some v"
proof (cases "x \<le> 0 \<or> x \<ge> of_int (2 * p - 1)")
  case True
  then show ?thesis by (simp add: linear_def)
next
  case False
  then have x: "0 < x" "x < of_int (2 * p - 1)" by auto
  from index_ok [OF assms(1) x] obtain kk
    where kk: "size_t_of \<lfloor>of_int (shl1 r) * x\<rfloor> = Some kk" "kk + 1 < grid_points p r" by blast
  then have "kk < length phi" "kk + 1 < length phi" using assms(2) by simp_all
  then show ?thesis using False kk(1) by (simp add: linear_def Let_def vec_at_Some)
qed

lemma fotaylor_total:
  assumes "r < 31" "length phi = grid_points p r" "length phi_prime = grid_points p r"
  shows "\<exists>v. fotaylor p r phi phi_prime x = Some v"
proof (cases "x \<le> 0 \<or> x \<ge> of_int (2 * p - 1)")
  case True
  then show ?thesis by (simp add: fotaylor_def)
next
  case False
  then have x: "0 < x" "x < of_int (2 * p - 1)" by auto
  from index_ok [OF assms(1) x] obtain kk
    where kk: "size_t_of \<lfloor>of_int (shl1 r) * x\<rfloor> = Some kk" "kk + 1 < grid_points p r" by blast
  then have "kk < grid_points p r" by simp
  then show ?thesis using False kk assms(2,3) by (simp add: fotaylor_def Let_def vec_at_Some)
qed

lemma sotaylor_total:
  assumes "r < 31" "length phi = grid_points p r" "length phi_prime = grid_points p r"
    "length phi_dbl_prime = grid_points p r"
  shows "\<exists>v. sotaylor p r phi phi_prime phi_dbl_prime x = Some v"
proof (cases "x \<le> 0 \<or> x \<ge> of_int (2 * p - 1)")
  case True
  then show ?thesis by (simp add: sotaylor_def)
next
  case False
  then have x: "0 < x" "x < of_int (2 * p - 1)" by auto
  from index_ok [OF assms(1) x] obtain kk
    where kk: "size_t_of \<lfloor>of_int (shl1 r) * x\<rfloor> = Some kk" "kk + 1 < grid_points p r" by blast
  then have "kk < grid_points p r" by simp
  then show ?thesis using False kk assms(2-) by (simp add: sotaylor_def Let_def vec_at_Some)
qed

lemma totaylor_total:
  assumes "r < 31" "length phi = grid_points p r" "length phi_prime = grid_points p r"
    "length phi_dbl_prime = grid_points p r" "length phi_triple_prime = grid_points p r"
  shows "\<exists>v. totaylor p r phi phi_prime phi_dbl_prime phi_triple_prime x = Some v"
proof (cases "x \<le> 0 \<or> x \<ge> of_int (2 * p - 1)")
  case True
  then show ?thesis by (simp add: totaylor_def)
next
  case False
  then have x: "0 < x" "x < of_int (2 * p - 1)" by auto
  from index_ok [OF assms(1) x] obtain kk
    where kk: "size_t_of \<lfloor>of_int (shl1 r) * x\<rfloor> = Some kk" "kk + 1 < grid_points p r" by blast
  then have "kk < grid_points p r" by simp
  then show ?thesis using False kk assms(2-) by (simp add: totaylor_def Let_def vec_at_Some)
qed

lemma grid_points_pos: "1 \<le> p \<Longrightarrow> 2 ^ r < grid_points p r"
proof -
  assume "1 \<le> p"
  then have "1 \<le> 2 * p - 1" by simp
  then have "1 * (2::int) ^ r \<le> (2 * p - 1) * 2 ^ r" by (intro mult_right_mono) simp_all
  then have "(2::int) ^ r < (2 * p - 1) * 2 ^ r + 1" by simp
  then have "nat (2 ^ r) < nat ((2 * p - 1) * 2 ^ r + 1)" by (simp add: nat_less_eq_zless)
  then show ?thesis by (simp add: grid_points_def nat_power_eq)
qed

subsection \<open>The candidate grid\<close>

text \<open>
  Claim C7. Given that the dyadic grid of level \<open>r\<close> has \<open>(2p - 1) 2\<^sup>r + 1\<close> points, the spacing
  \<^verbatim>\<open>dx = (2*p-1)/(x.size()-1)\<close> is exactly \<open>2\<^sup>-\<^sup>r\<close>, which is one over the printed
  \<^verbatim>\<open>(1 << r)\<close>; the quotient is a power of two, so a division that returns representable
  results unchanged yields it exactly as well; and the abscissas \<^verbatim>\<open>x[i] = i*dx\<close> start at \<open>0\<close>, end at \<open>2p - 1\<close>, stay
  in between and are \<open>2\<^sup>-\<^sup>r\<close> apart: they cover the support \<open>[0, 2p - 1]\<close>.
\<close>

theorem grid_spacing:
  assumes "1 \<le> p" and "r < 31" and "n = grid_points p r"
  shows "grid_dx p n = 1 / 2 ^ r
       \<and> grid_dx p n = 1 / of_int (shl1 r)
       \<and> (\<forall>rnd F. (\<forall>x \<in> F. rnd x = x) \<and> 1 / 2 ^ r \<in> F \<longrightarrow> rnd (grid_dx p n) = (1 / 2 ^ r :: real))
       \<and> length (abscissas n (grid_dx p n)) = n
       \<and> abscissas n (grid_dx p n) ! 0 = 0
       \<and> abscissas n (grid_dx p n) ! (n - 1) = of_int (2 * p - 1)
       \<and> (\<forall>i < n. 0 \<le> abscissas n (grid_dx p n) ! i \<and> abscissas n (grid_dx p n) ! i \<le> of_int (2 * p - 1))
       \<and> (\<forall>i. i + 1 < n \<longrightarrow> abscissas n (grid_dx p n) ! (i + 1) - abscissas n (grid_dx p n) ! i = 1 / 2 ^ r)"
proof -
  have q: "0 < 2 * p - 1" using assms(1) by simp
  have npos: "0 < n" using grid_points_pos [OF assms(1), of r] assms(3) by simp
  have n1: "real (n - 1) = of_int (2 * p - 1) * 2 ^ r"
  proof -
    have "int (n - 1) = (2 * p - 1) * 2 ^ r"
      using q assms(3) by (simp add: grid_points_def nat_add_distrib nat_mult_distrib)
    then have "real_of_int (int (n - 1)) = of_int ((2 * p - 1) * 2 ^ r)" by (simp only:)
    then show ?thesis by simp
  qed
  define a :: real where "a = of_int (2 * p - 1)"
  have a: "0 < a" unfolding a_def using q by (simp only: of_int_0_less_iff)
  have dx: "grid_dx p n = 1 / 2 ^ r"
  proof -
    have "size_sub1 n = n - 1" using npos by (simp add: size_sub1_def)
    then have "grid_dx p n = a / (a * 2 ^ r)" by (simp only: grid_dx_def n1 a_def)
    also have "\<dots> = 1 / 2 ^ r" using a by simp
    finally show ?thesis .
  qed
  have x: "\<And>i. i < n \<Longrightarrow> abscissas n (1 / 2 ^ r) ! i = real i / 2 ^ r"
    by (simp add: abscissas_def)
  have le: "\<And>i. i < n \<Longrightarrow> real i / 2 ^ r \<le> of_int (2 * p - 1)"
  proof -
    fix i assume "i < n"
    then have "real i \<le> real (n - 1)" by simp
    then have "real i \<le> a * 2 ^ r" by (simp only: n1 a_def)
    then show "real i / 2 ^ r \<le> of_int (2 * p - 1)" by (simp add: a_def divide_le_eq)
  qed
  have last: "real (n - 1) / 2 ^ r = of_int (2 * p - 1)" by (simp only: n1) simp
  have step: "\<And>i. real (i + 1) / 2 ^ r - real i / 2 ^ r = 1 / 2 ^ r"
    by (simp add: add_divide_distrib)
  have "abscissas n (1 / 2 ^ r) ! 0 = 0" using npos by (simp add: x)
  moreover have "abscissas n (1 / 2 ^ r) ! (n - 1) = of_int (2 * p - 1)"
    using npos by (simp only: x last)
  moreover have "\<forall>i < n. 0 \<le> abscissas n (1 / 2 ^ r) ! i \<and> abscissas n (1 / 2 ^ r) ! i \<le> of_int (2 * p - 1)"
    using le by (simp add: x)
  moreover have "\<forall>i. i + 1 < n \<longrightarrow> abscissas n (1 / 2 ^ r) ! (i + 1) - abscissas n (1 / 2 ^ r) ! i = 1 / 2 ^ r"
    using step by (simp add: x del: of_nat_add of_nat_Suc)
  moreover have "length (abscissas n (1 / 2 ^ r)) = n" by (simp add: abscissas_def)
  moreover have "(1::real) / 2 ^ r = 1 / of_int (shl1 r)" using assms(2) by (simp add: shl1_eq)
  moreover have "\<forall>rnd F. (\<forall>x \<in> F. rnd x = x) \<and> 1 / 2 ^ r \<in> F \<longrightarrow> rnd (1 / 2 ^ r) = (1 / 2 ^ r :: real)"
    by simp
  ultimately show ?thesis unfolding dx by blast
qed

theorem grid_spacing_witness:
  "13 = grid_points 2 2
   \<and> grid_dx 2 13 = 1 / 2 ^ 2 \<and> abscissas 13 (grid_dx 2 13) ! (13 - 1) = of_int (2 * 2 - 1)"
proof -
  have h: "13 = grid_points 2 2" by (simp add: grid_points_def)
  have a: "(1::int) \<le> 2" and b: "(2::nat) < 31" by simp_all
  from grid_spacing [OF a b h] h show ?thesis by blast
qed

subsection \<open>The ad-hoc linear interpolator and the Taylor interpolators\<close>

text \<open>
  Claim C8. In the linear interpolator, for \<open>0 < x < 2p - 1\<close> the floored value is not
  negative, the index \<^verbatim>\<open>kk\<close> and its successor are at most \<^verbatim>\<open>phi.size() - 1\<close>, both reads
  succeed and the interpolator returns a value.
\<close>

theorem linear_reads_in_bounds:
  fixes x :: real
  assumes "r < 31" and "length phi = grid_points p r" and "0 < x" and "x < of_int (2 * p - 1)"
  shows "0 \<le> \<lfloor>of_int (shl1 r) * x\<rfloor>
       \<and> (\<exists>kk. size_t_of \<lfloor>of_int (shl1 r) * x\<rfloor> = Some kk \<and> kk + 1 \<le> length phi - 1
            \<and> vec_at phi kk \<noteq> None \<and> vec_at phi (kk + 1) \<noteq> None)
       \<and> (\<exists>v. linear p r phi x = Some v)"
proof -
  from index_ok [OF assms(1,3,4)] obtain kk
    where kk: "size_t_of \<lfloor>of_int (shl1 r) * x\<rfloor> = Some kk" "kk + 1 < grid_points p r" by blast
  have "0 \<le> \<lfloor>of_int (shl1 r) * x\<rfloor>" using kk(1) by (simp add: size_t_of_def split: if_splits)
  moreover have "kk + 1 \<le> length phi - 1" "vec_at phi kk \<noteq> None" "vec_at phi (kk + 1) \<noteq> None"
    using kk(2) assms(2) by (simp_all add: vec_at_def)
  ultimately show ?thesis using kk(1) linear_total [OF assms(1,2)] by blast
qed

theorem linear_reads_in_bounds_witness:
  "(2::nat) < 31 \<and> length (replicate 13 (0::real)) = grid_points 2 2
   \<and> (0::real) < 1 / 2 \<and> (1::real) / 2 < of_int (2 * 2 - 1)
   \<and> (\<exists>v. linear 2 2 (replicate 13 0) (1 / 2) = Some v)"
proof -
  have h: "length (replicate 13 (0::real)) = grid_points 2 2" by (simp add: grid_points_def)
  show ?thesis using linear_reads_in_bounds [of 2 "replicate 13 0" 2 "1 / 2", OF _ h] h by simp
qed

text \<open>
  Claim C9. The linear interpolator and the first-, second- and third-order Taylor
  interpolators return exactly \<open>0\<close> for every \<open>x \<le> 0\<close> and every \<open>x \<ge> 2p - 1\<close>.
\<close>

theorem vanish_outside_support:
  assumes "x \<le> 0 \<or> x \<ge> of_int (2 * p - 1)"
  shows "linear p r phi x = Some 0
       \<and> fotaylor p r phi phi_prime x = Some 0
       \<and> sotaylor p r phi phi_prime phi_dbl_prime x = Some 0
       \<and> totaylor p r phi phi_prime phi_dbl_prime phi_triple_prime x = Some 0"
  using assms by (simp add: linear_def fotaylor_def sotaylor_def totaylor_def)

theorem vanish_outside_support_witness:
  "(3::real) \<ge> of_int (2 * 2 - 1) \<and> linear 2 2 [] 3 = Some 0 \<and> fotaylor 2 2 [] [] 3 = Some 0
   \<and> sotaylor 2 2 [] [] [] 3 = Some 0 \<and> totaylor 2 2 [] [] [] [] 3 = Some 0"
  using vanish_outside_support [of 3 2 2 "[]" "[]" "[]" "[]"] by simp

text \<open>
  Claim C10. At a grid node, that is for \<open>0 < x < 2p - 1\<close> with \<^verbatim>\<open>(1<<r)*x\<close> an integer
  \<open>k\<close>, the linear interpolator returns \<^verbatim>\<open>phi[k]\<close>.
\<close>

theorem linear_at_nodes:
  fixes x :: real
  assumes "r < 31" and "length phi = grid_points p r" and "0 < x" and "x < of_int (2 * p - 1)"
    and "of_int (shl1 r) * x = of_int k"
  shows "linear p r phi x = Some (phi ! nat k) \<and> nat k < length phi"
proof -
  from index_ok [OF assms(1,3,4)] obtain kk
    where kk: "size_t_of \<lfloor>of_int (shl1 r) * x\<rfloor> = Some kk" "kk + 1 < grid_points p r" by blast
  have fl: "\<lfloor>of_int (shl1 r) * x\<rfloor> = k" using assms(5) by simp
  have "kk = nat k" using kk(1) unfolding fl by (simp add: size_t_of_def split: if_splits)
  then show ?thesis
    using kk assms(2,3,4,5) unfolding fl
    by (simp add: linear_def Let_def vec_at_def)
qed


theorem linear_at_nodes_witness:
  "(2::nat) < 31 \<and> length (map real [0..<13]) = grid_points 2 2
   \<and> (0::real) < 1 / 2 \<and> (1::real) / 2 < of_int (2 * 2 - 1)
   \<and> of_int (shl1 2) * ((1::real) / 2) = of_int 2
   \<and> linear 2 2 (map real [0..<13]) (1 / 2) = Some 2"
proof -
  have h: "length (map real [0..<13]) = grid_points 2 2" by (simp add: grid_points_def)
  have k: "of_int (shl1 2) * ((1::real) / 2) = of_int 2" by (simp add: shl1_eq)
  show ?thesis using linear_at_nodes [of 2 "map real [0..<13]" 2 "1 / 2" 2, OF _ h _ _ k] h k
    by simp
qed

section \<open>The sup-norm loop and the table of the loop body\<close>

lemma sup_loop_done: "\<not> i < n \<Longrightarrow> sup_loop f d dx i n s = Some s"
  by (subst sup_loop.simps) simp

lemma sup_loop_step:
  assumes "i < n" and "i < length d" and "f (real i * dx) = Some v"
  shows "sup_loop f d dx i n s =
         sup_loop f d dx (i + 1) n (if \<bar>d ! i - v\<bar> > s then \<bar>d ! i - v\<bar> else s)"
  by (subst sup_loop.simps) (simp add: assms vec_at_def Let_def)

lemma sup_loop_inv:
  assumes "n \<le> length d" and "\<forall>j. i \<le> j \<and> j < n \<longrightarrow> f (real j * dx) \<noteq> None"
  shows "\<exists>e. sup_loop f d dx i n s = Some e \<and> s \<le> e
           \<and> (\<forall>j. i \<le> j \<and> j < n \<longrightarrow> (\<exists>v. f (real j * dx) = Some v \<and> \<bar>d ! j - v\<bar> \<le> e))
           \<and> (e = s \<or> (\<exists>j. i \<le> j \<and> j < n \<and> (\<exists>v. f (real j * dx) = Some v \<and> e = \<bar>d ! j - v\<bar>)))"
  using assms(2)
proof (induction "n - i" arbitrary: i s)
  case 0
  then have "\<not> i < n" by simp
  then show ?case by (auto simp: sup_loop_done)
next
  case (Suc k)
  then have lt: "i < n" by simp
  then have "f (real i * dx) \<noteq> None" using Suc.prems by blast
  then obtain v where v: "f (real i * dx) = Some v" by blast
  define s' where "s' = (if \<bar>d ! i - v\<bar> > s then \<bar>d ! i - v\<bar> else s)"
  have unf: "sup_loop f d dx i n s = sup_loop f d dx (i + 1) n s'"
    unfolding s'_def using lt assms(1) v by (intro sup_loop_step) simp_all
  have k: "k = n - (i + 1)" using Suc.hyps(2) by simp
  have tot: "\<forall>j. i + 1 \<le> j \<and> j < n \<longrightarrow> f (real j * dx) \<noteq> None" using Suc.prems by simp
  obtain e where e1: "sup_loop f d dx (i + 1) n s' = Some e" and e2: "s' \<le> e"
    and e3: "\<And>j. i + 1 \<le> j \<Longrightarrow> j < n \<Longrightarrow> \<exists>v. f (real j * dx) = Some v \<and> \<bar>d ! j - v\<bar> \<le> e"
    and e4: "e = s' \<or> (\<exists>j. i + 1 \<le> j \<and> j < n \<and> (\<exists>v. f (real j * dx) = Some v \<and> e = \<bar>d ! j - v\<bar>))"
    using Suc.hyps(1) [OF k tot, of s'] by auto
  have s': "s \<le> s'" "\<bar>d ! i - v\<bar> \<le> s'" "s' = s \<or> s' = \<bar>d ! i - v\<bar>" by (simp_all add: s'_def)
  have a: "\<exists>v. f (real j * dx) = Some v \<and> \<bar>d ! j - v\<bar> \<le> e" if j: "i \<le> j" "j < n" for j
  proof (cases "j = i")
    case True
    have "\<bar>d ! i - v\<bar> \<le> e" using s'(2) e2 by simp
    then show ?thesis using v True by simp
  next
    case False
    then have "i + 1 \<le> j" using j(1) by simp
    then show ?thesis using e3 j(2) by simp
  qed
  have b: "e = s \<or> (\<exists>j. i \<le> j \<and> j < n \<and> (\<exists>v. f (real j * dx) = Some v \<and> e = \<bar>d ! j - v\<bar>))"
    using e4
  proof
    assume es: "e = s'"
    from s'(3) show ?thesis
    proof
      assume "s' = s" then show ?thesis using es by simp
    next
      assume "s' = \<bar>d ! i - v\<bar>"
      then have "i \<le> i \<and> i < n \<and> (\<exists>v. f (real i * dx) = Some v \<and> e = \<bar>d ! i - v\<bar>)"
        using es v lt by simp
      then show ?thesis by (intro disjI2 exI [of _ i])
    qed
  next
    assume "\<exists>j. i + 1 \<le> j \<and> j < n \<and> (\<exists>v. f (real j * dx) = Some v \<and> e = \<bar>d ! j - v\<bar>)"
    then obtain j where "i + 1 \<le> j \<and> j < n \<and> (\<exists>v. f (real j * dx) = Some v \<and> e = \<bar>d ! j - v\<bar>)" ..
    then have "i \<le> j \<and> j < n \<and> (\<exists>v. f (real j * dx) = Some v \<and> e = \<bar>d ! j - v\<bar>)" by simp
    then show ?thesis by (intro disjI2 exI [of _ j])
  qed
  have c: "s \<le> e" using e2 s'(1) by simp
  show ?case unfolding unf using e1 c a b by (intro exI [of _ e]) simp
qed

lemma is_sup_error_iff:
  "is_sup_error f d dx n e \<longleftrightarrow>
     (\<forall>i \<in> {0..<n}. \<exists>v. f (real i * dx) = Some v \<and> \<bar>d ! i - v\<bar> \<le> e)
     \<and> (\<exists>i \<in> {0..<n}. \<exists>v. f (real i * dx) = Some v \<and> e = \<bar>d ! i - v\<bar>)"
proof -
  have "(case x of None \<Rightarrow> False | Some v \<Rightarrow> P v) = (\<exists>v. x = Some v \<and> P v)"
    for x :: "real option" and P
    by (cases x) simp_all
  then show ?thesis by (simp only: is_sup_error_def)
qed

lemma sup_loop_is_sup_error:
  assumes "n \<le> length d" and "0 < n" and "\<forall>x. f x \<noteq> None"
  shows "\<exists>e. sup_loop f d dx 0 n 0 = Some e \<and> is_sup_error f d dx n e"
proof -
  have tot: "\<forall>j. 0 \<le> j \<and> j < n \<longrightarrow> f (real j * dx) \<noteq> None" using assms(3) by simp
  obtain e where e1: "sup_loop f d dx 0 n 0 = Some e"
    and e3: "\<forall>j. 0 \<le> j \<and> j < n \<longrightarrow> (\<exists>v. f (real j * dx) = Some v \<and> \<bar>d ! j - v\<bar> \<le> e)"
    and e4: "e = 0 \<or> (\<exists>j. 0 \<le> j \<and> j < n \<and> (\<exists>v. f (real j * dx) = Some v \<and> e = \<bar>d ! j - v\<bar>))"
    using sup_loop_inv [OF assms(1) tot, of 0] by (elim exE conjE)
  have ub: "\<forall>i \<in> {0..<n}. \<exists>v. f (real i * dx) = Some v \<and> \<bar>d ! i - v\<bar> \<le> e"
    using e3 by simp
  have att: "\<exists>i \<in> {0..<n}. \<exists>v. f (real i * dx) = Some v \<and> e = \<bar>d ! i - v\<bar>"
    using e4
  proof
    assume e0: "e = 0"
    have "0 \<in> {0..<n}" using assms(2) by simp
    with ub have "\<exists>v. f (real 0 * dx) = Some v \<and> \<bar>d ! 0 - v\<bar> \<le> e" by (rule bspec)
    then obtain v where "f (real 0 * dx) = Some v" "\<bar>d ! 0 - v\<bar> \<le> e" by (elim exE conjE)
    then have "f (real 0 * dx) = Some v \<and> e = \<bar>d ! 0 - v\<bar>" using e0 by simp
    then have "\<exists>v. f (real 0 * dx) = Some v \<and> e = \<bar>d ! 0 - v\<bar>" ..
    with \<open>0 \<in> {0..<n}\<close> show ?thesis ..
  next
    assume "\<exists>j. 0 \<le> j \<and> j < n \<and> (\<exists>v. f (real j * dx) = Some v \<and> e = \<bar>d ! j - v\<bar>)"
    then obtain j where "0 \<le> j \<and> j < n \<and> (\<exists>v. f (real j * dx) = Some v \<and> e = \<bar>d ! j - v\<bar>)" ..
    then have j: "j < n" "\<exists>v. f (real j * dx) = Some v \<and> e = \<bar>d ! j - v\<bar>" by simp_all
    have "j \<in> {0..<n}" using j(1) by simp
    with j(2) show ?thesis by (intro bexI [of _ j])
  qed
  show ?thesis unfolding is_sup_error_iff using e1 ub att by (intro exI [of _ e] conjI)
qed

lemma run_steps_append:
  "run_steps (xs @ ys) d dx s = Option.bind (run_steps xs d dx s) (run_steps ys d dx)"
proof (induction xs arbitrary: s)
  case Nil
  show ?case by simp
next
  case (Cons a xs)
  show ?case by (cases a) (simp_all add: Cons.IH cong: Option.bind_cong)
qed

lemma run_steps_Sup_fun:
  "run_steps (Sup name f n sep # steps) d dx =
   (\<lambda>s. Option.bind (scheme_block name f d dx n sep s) (run_steps steps d dx))"
  by (rule ext) simp

lemma run_steps_Lib_fun:
  "run_steps (Lib c # steps) d dx = (\<lambda>s. run_steps steps d dx (s\<lparr>calls := calls s @ [c]\<rparr>))"
  by (rule ext) simp

lemma run_steps_Nil_fun: "run_steps [] d dx = Some"
  by (rule ext) simp

lemma map_option_bind: "map_option g (Option.bind x k) = Option.bind x (\<lambda>y. map_option g (k y))"
  by (cases x) simp_all

lemma bind_Some_map: "Option.bind x (\<lambda>s. Some (g s)) = map_option g x"
  by (cases x) simp_all

lemma r_body_steps:
  assumes "dyadic_grid L p 1 r \<noteq> []"
  shows "r_body L p d dx r s =
         map_option (choose_best p) (run_steps (body_steps L p r (length d)) d dx (body_start L p r s))"
proof -
  consider "p \<le> 2" | "p = 3" | "p > 3" by linarith
  then show ?thesis
  proof cases
    case 1
    then show ?thesis using assms
      by (simp add: r_body_def body_steps_def body_start_def Let_def map_option_bind bind_Some_map option.map_ident
          run_steps_Sup_fun run_steps_Lib_fun run_steps_Nil_fun)
  next
    case 2
    then show ?thesis using assms
      by (simp add: r_body_def body_steps_def body_start_def blocks_gt2_def Let_def map_option_bind bind_Some_map option.map_ident
          run_steps_Sup_fun run_steps_Lib_fun run_steps_Nil_fun)
  next
    case 3
    then show ?thesis using assms
      by (simp add: r_body_def body_steps_def body_start_def blocks_gt2_def blocks_gt3_def Let_def
          map_option_bind bind_Some_map option.map_ident run_steps_Sup_fun run_steps_Lib_fun run_steps_Nil_fun)
  qed
qed

lemma scheme_block_result:
  assumes "sup_loop f d dx 0 n 0 \<noteq> None"
  shows "scheme_block name f d dx n sep s =
         Some (s\<lparr>calls := calls s @ [Evaluate name],
                 m_map := map_insert (sup_of d dx f n, name) (m_map s),
                 fs := fs s @ [RealT (sup_of d dx f n), Str sep]\<rparr>)"
proof -
  from assms obtain e where e: "sup_loop f d dx 0 n 0 = Some e" by blast
  then show ?thesis by (simp add: scheme_block_def sup_of_def)
qed

lemma run_steps_result:
  assumes "\<forall>st \<in> set steps. step_ok d dx st"
  shows "run_steps steps d dx s =
         Some (s\<lparr>calls := calls s @ map step_call steps,
                 m_map := foldl (\<lambda>mm e. map_insert e mm) (m_map s) (recorded d dx steps),
                 fs := fs s @ concat (map (step_cells d dx) steps)\<rparr>)"
  using assms
proof (induction steps arbitrary: s)
  case Nil
  show ?case by simp
next
  case (Cons a steps)
  then have ok: "\<forall>st \<in> set steps. step_ok d dx st" by simp
  show ?case
  proof (cases a)
    case (Sup name f n sep)
    then have "sup_loop f d dx 0 n 0 \<noteq> None" using Cons.prems by simp
    then show ?thesis using Sup by (simp add: scheme_block_result Cons.IH [OF ok])
  next
    case (Lib c)
    then show ?thesis by (simp add: Cons.IH [OF ok])
  qed
qed

lemma sup_loop_total:
  assumes "n \<le> length d" and "\<forall>x. f x \<noteq> None"
  shows "sup_loop f d dx 0 n 0 \<noteq> None"
proof -
  have "\<forall>j. 0 \<le> j \<and> j < n \<longrightarrow> f (real j * dx) \<noteq> None" using assms(2) by simp
  from sup_loop_inv [OF assms(1) this, of 0] obtain e where "sup_loop f d dx 0 n 0 = Some e"
    by (elim exE conjE)
  then show ?thesis by simp
qed

lemma size_sub1_le: "0 < n \<Longrightarrow> size_sub1 n \<le> n"
  by (simp add: size_sub1_def)

lemma not_None_ex: "(x \<noteq> None) = (\<exists>v. x = Some v)"
  by (cases x) simp_all

lemma body_steps_ok:
  assumes "grids_ok L p r" and "r < 31" and "0 < length d"
  shows "\<forall>st \<in> set (body_steps L p r (length d)). step_ok d dx st"
proof -
  have g: "length (dyadic_grid L p 0 r) = grid_points p r"
    "length (dyadic_grid L p (Suc 0) r) = grid_points p r"
    "length (dyadic_grid L p 2 r) = grid_points p r"
    "length (dyadic_grid L p 3 r) = grid_points p r"
    using assms(1) by (simp_all add: grids_ok_def)
  have t1: "\<forall>x. linear p r (dyadic_grid L p 0 r) x \<noteq> None"
    unfolding not_None_ex using linear_total [OF assms(2) g(1)] by (rule allI)
  have t2: "\<forall>x. fotaylor p r (dyadic_grid L p 0 r) (dyadic_grid L p (Suc 0) r) x \<noteq> None"
    unfolding not_None_ex using fotaylor_total [OF assms(2) g(1,2)] by (rule allI)
  have t3: "\<forall>x. sotaylor p r (dyadic_grid L p 0 r) (dyadic_grid L p (Suc 0) r)
                   (dyadic_grid L p 2 r) x \<noteq> None"
    unfolding not_None_ex using sotaylor_total [OF assms(2) g(1,2,3)] by (rule allI)
  have t4: "\<forall>x. totaylor p r (dyadic_grid L p 0 r) (dyadic_grid L p (Suc 0) r)
                   (dyadic_grid L p 2 r) (dyadic_grid L p 3 r) x \<noteq> None"
    unfolding not_None_ex using totaylor_total [OF assms(2) g] by (rule allI)
  have le: "size_sub1 (length d) \<le> length d" using assms(3) by (rule size_sub1_le)
  have "list_all (step_ok d dx) (body_steps L p r (length d))"
    by (simp add: body_steps_def Let_def sup_loop_total t1 t2 t3 t4 le)
  then show ?thesis by (simp only: list_all_iff)
qed

lemma grid_points_nonempty: "1 \<le> p \<Longrightarrow> 0 < grid_points p r"
  using grid_points_pos [of p r] by simp

lemma r_body_result:
  assumes "grids_ok L p r" and "r < 31" and "1 \<le> p" and "0 < length d"
  shows "r_body L p d dx r s =
         Some (choose_best p
           ((body_start L p r s)
             \<lparr>calls := calls (body_start L p r s) @ map step_call (body_steps L p r (length d)),
              m_map := foldl (\<lambda>mm e. map_insert e mm) [] (recorded d dx (body_steps L p r (length d))),
              fs := fs (body_start L p r s)
                    @ concat (map (step_cells d dx) (body_steps L p r (length d)))\<rparr>))"
proof -
  have "length (dyadic_grid L p 1 r) = grid_points p r" using assms(1) by (simp add: grids_ok_def)
  then have ne: "dyadic_grid L p 1 r \<noteq> []" using grid_points_nonempty [OF assms(3), of r] by auto
  have m0: "m_map (body_start L p r s) = []" by (simp add: body_start_def)
  show ?thesis
    unfolding r_body_steps [OF ne] run_steps_result [OF body_steps_ok [OF assms(1,2,4)]] m0
    by simp
qed

subsection \<open>The map of errors and the choice of the best method\<close>

lemma map_insert_keys: "fst ` set (map_insert e mm) = insert (fst e) (fst ` set mm)"
  by (induction e mm rule: map_insert.induct) auto

lemma map_insert_sorted:
  "sorted_wrt (<) (map fst mm) \<Longrightarrow> sorted_wrt (<) (map fst (map_insert e mm))"
proof (induction e mm rule: map_insert.induct)
  case (1 k v)
  show ?case by simp
next
  case (2 k v k' v' es)
  show ?case
  proof (cases "k < k'")
    case True
    then show ?thesis using "2.prems" by auto
  next
    case False
    note nlt = this
    show ?thesis
    proof (cases "k = k'")
      case True
      then show ?thesis using "2.prems" by simp
    next
      case False
      then have lt: "k' < k" using nlt by simp
      have "sorted_wrt (<) (map fst (map_insert (k, v) es))"
        using "2.IH" [OF nlt False] "2.prems" by simp
      moreover have "\<forall>x \<in> fst ` set (map_insert (k, v) es). k' < x"
        using "2.prems" lt by (auto simp: map_insert_keys)
      ultimately show ?thesis using nlt False by simp
    qed
  qed
qed

lemma recorded_sorted:
  "sorted_wrt (<) (map fst (foldl (\<lambda>mm e. map_insert e mm) [] es))"
proof -
  have "sorted_wrt (<) (map fst mm) \<Longrightarrow> sorted_wrt (<) (map fst (foldl (\<lambda>mm e. map_insert e mm) mm es))" for mm
    by (induction es arbitrary: mm) (simp_all add: map_insert_sorted)
  then show ?thesis by simp
qed

lemma best_loop_frame:
  "fs (best_loop mm s) = fs s \<and> calls (best_loop mm s) = calls s \<and> m_map (best_loop mm s) = m_map s"
  by (induction mm arbitrary: s) (simp_all add: Let_def)

lemma best_loop_cout: "\<exists>pre. cout (best_loop mm s) = cout s @ pre"
proof (induction mm arbitrary: s)
  case Nil
  show ?case by simp
next
  case (Cons e mm)
  define s1 where "s1 = s\<lparr>cout := cout s @ [Str [CHR 0x09], RealT (fst e), Str '' is error of '',
                                       Str (snd e), Str ''\<newline>'']\<rparr>"
  define s2 where "s2 = (if fst e < best_sup s1 then s1\<lparr>best := snd e, best_sup := fst e\<rparr> else s1)"
  have eq: "best_loop (e # mm) s = best_loop mm s2" by (simp add: s1_def s2_def Let_def)
  from Cons [of s2] obtain pre where "cout (best_loop mm s2) = cout s2 @ pre" ..
  moreover have "cout s2 = cout s @ [Str [CHR 0x09], RealT (fst e), Str '' is error of '',
                                       Str (snd e), Str ''\<newline>'']"
    by (simp add: s1_def s2_def)
  ultimately show ?case unfolding eq by simp
qed

lemma best_loop_min:
  "best_sup (best_loop mm s) \<le> best_sup s
   \<and> (\<forall>e \<in> set mm. best_sup (best_loop mm s) \<le> fst e)
   \<and> ((best_sup (best_loop mm s), best (best_loop mm s)) \<in> set mm
      \<or> (best_sup (best_loop mm s) = best_sup s \<and> best (best_loop mm s) = best s))"
proof (induction mm arbitrary: s)
  case Nil
  show ?case by simp
next
  case (Cons e mm)
  define s1 where "s1 = s\<lparr>cout := cout s @ [Str [CHR 0x09], RealT (fst e), Str '' is error of '',
                                       Str (snd e), Str ''\<newline>'']\<rparr>"
  define s2 where "s2 = (if fst e < best_sup s1 then s1\<lparr>best := snd e, best_sup := fst e\<rparr> else s1)"
  have eq: "best_loop (e # mm) s = best_loop mm s2" by (simp add: s1_def s2_def Let_def)
  have s2: "best_sup s2 \<le> best_sup s" "best_sup s2 \<le> fst e"
    "(best_sup s2, best s2) = e \<or> (best_sup s2 = best_sup s \<and> best s2 = best s)"
    by (simp_all add: s1_def s2_def)
  note ih = Cons [of s2]
  from ih have a: "best_sup (best_loop mm s2) \<le> best_sup s2" by simp
  from ih have b: "\<forall>e \<in> set mm. best_sup (best_loop mm s2) \<le> fst e" by simp
  from ih have c: "(best_sup (best_loop mm s2), best (best_loop mm s2)) \<in> set mm
      \<or> (best_sup (best_loop mm s2) = best_sup s2 \<and> best (best_loop mm s2) = best s2)" by simp
  have "best_sup (best_loop mm s2) \<le> best_sup s" using a s2(1) by simp
  moreover have "\<forall>e' \<in> set (e # mm). best_sup (best_loop mm s2) \<le> fst e'"
    using a b s2(2) by simp
  moreover have "(best_sup (best_loop mm s2), best (best_loop mm s2)) \<in> set (e # mm)
      \<or> (best_sup (best_loop mm s2) = best_sup s \<and> best (best_loop mm s2) = best s)"
    using c s2(3) by auto
  ultimately show ?case unfolding eq by blast
qed

lemma best_loop_unchanged:
  "\<forall>e \<in> set mm. \<not> fst e < best_sup s \<Longrightarrow>
   best (best_loop mm s) = best s \<and> best_sup (best_loop mm s) = best_sup s"
  by (induction mm arbitrary: s) (simp_all add: Let_def)

lemma choose_best_frame:
  "fs (choose_best p s) = fs s \<and> calls (choose_best p s) = calls s \<and> m_map (choose_best p s) = m_map s"
  by (simp add: choose_best_def Let_def best_loop_frame)

lemma choose_best_cout:
  "\<exists>pre. cout (choose_best p s) =
     cout s @ pre @ [Str (CHR 0x09 # ''The best method for p = ''), IntT p, Str '' is the '',
                     Str (best (choose_best p s)), Str ''\<newline>'']"
proof -
  define s1 where "s1 = best_loop (m_map s) (s\<lparr>best := ''none'', best_sup := 1000000000\<rparr>)"
  obtain pre where "cout s1 = cout (s\<lparr>best := ''none'', best_sup := 1000000000\<rparr>) @ pre"
    unfolding s1_def using best_loop_cout by blast
  then have "cout s1 = cout s @ pre" by simp
  then show ?thesis by (simp add: choose_best_def Let_def s1_def [symmetric])
qed

lemma choose_best_min:
  "(if \<exists>e \<in> set (m_map s). fst e < 1000000000
    then (\<exists>e. (e, best (choose_best p s)) \<in> set (m_map s) \<and> (\<forall>e' \<in> set (m_map s). e \<le> fst e'))
    else best (choose_best p s) = ''none'')"
proof -
  define s0 where "s0 = s\<lparr>best := ''none'', best_sup := 1000000000\<rparr>"
  define s1 where "s1 = best_loop (m_map s) s0"
  have b: "best (choose_best p s) = best s1" by (simp add: choose_best_def Let_def s1_def s0_def)
  have s0: "best_sup s0 = 1000000000" "best s0 = ''none''" by (simp_all add: s0_def)
  from best_loop_min [of "m_map s" s0, folded s1_def]
  have le: "\<forall>e \<in> set (m_map s). best_sup s1 \<le> fst e"
    and dj: "(best_sup s1, best s1) \<in> set (m_map s) \<or> (best_sup s1 = best_sup s0 \<and> best s1 = best s0)"
    by simp_all
  show ?thesis
  proof (cases "\<exists>e \<in> set (m_map s). fst e < 1000000000")
    case True
    then obtain e where "e \<in> set (m_map s)" "fst e < 1000000000" ..
    then have "best_sup s1 < 1000000000" using le by force
    then have "(best_sup s1, best s1) \<in> set (m_map s)" using dj s0(1) by auto
    then have "\<exists>e. (e, best s1) \<in> set (m_map s) \<and> (\<forall>e' \<in> set (m_map s). e \<le> fst e')"
      using le by blast
    then show ?thesis using True unfolding b by simp
  next
    case False
    then have "\<forall>e \<in> set (m_map s). \<not> fst e < best_sup s0" using s0(1) by simp
    then have "best s1 = ''none''"
      unfolding s1_def using best_loop_unchanged [of "m_map s" s0] s0(2) by simp
    then show ?thesis using False unfolding b by simp
  qed
qed

lemma body_steps_shape:
  assumes "grids_ok L p r" and "r < 31"
  shows "list_all (step_shape m) (body_steps L p r m)"
proof -
  have g: "length (dyadic_grid L p 0 r) = grid_points p r"
    "length (dyadic_grid L p (Suc 0) r) = grid_points p r"
    "length (dyadic_grid L p 2 r) = grid_points p r"
    "length (dyadic_grid L p 3 r) = grid_points p r"
    using assms(1) by (simp_all add: grids_ok_def)
  have t1: "\<forall>x. linear p r (dyadic_grid L p 0 r) x \<noteq> None"
    unfolding not_None_ex using linear_total [OF assms(2) g(1)] by (rule allI)
  have t2: "\<forall>x. fotaylor p r (dyadic_grid L p 0 r) (dyadic_grid L p (Suc 0) r) x \<noteq> None"
    unfolding not_None_ex using fotaylor_total [OF assms(2) g(1,2)] by (rule allI)
  have t3: "\<forall>x. sotaylor p r (dyadic_grid L p 0 r) (dyadic_grid L p (Suc 0) r)
                   (dyadic_grid L p 2 r) x \<noteq> None"
    unfolding not_None_ex using sotaylor_total [OF assms(2) g(1,2,3)] by (rule allI)
  have t4: "\<forall>x. totaylor p r (dyadic_grid L p 0 r) (dyadic_grid L p (Suc 0) r)
                   (dyadic_grid L p 2 r) (dyadic_grid L p 3 r) x \<noteq> None"
    unfolding not_None_ex using totaylor_total [OF assms(2) g] by (rule allI)
  show ?thesis
    by (simp add: body_steps_def Let_def t1 t2 t3 t4)
qed

lemma body_steps_sup_errors:
  assumes "grids_ok L p r" and "r < 31" and "2 \<le> length d"
  shows "\<forall>st \<in> set (body_steps L p r (length d)). step_sup_error d dx st"
proof
  fix st assume "st \<in> set (body_steps L p r (length d))"
  then have sh: "step_shape (length d) st"
    using body_steps_shape [OF assms(1,2), of "length d"] by (simp add: list_all_iff)
  show "step_sup_error d dx st"
  proof (cases st)
    case (Lib c)
    then show ?thesis by simp
  next
    case (Sup name f n sep)
    have tot: "\<forall>x. f x \<noteq> None" using sh Sup by simp
    have n: "n = (if name = ''matched_holder'' then length d - 1 else length d)"
      using sh Sup assms(3) by (auto simp: size_sub1_def)
    then have "n \<le> length d" "0 < n" using assms(3) by auto
    from sup_loop_is_sup_error [OF this tot, of dx]
    obtain e where "sup_loop f d dx 0 n 0 = Some e" "is_sup_error f d dx n e" by (elim exE conjE)
    then have "is_sup_error f d dx n (sup_of d dx f n)" by (simp add: sup_of_def)
    then show ?thesis using Sup n by simp
  qed
qed

section \<open>The errors recorded and the best method\<close>

text \<open>
  Claim C2, amended. The loop body returns, and for every scheme other than
  \<^verbatim>\<open>matched_holder\<close> the error inserted into \<^verbatim>\<open>m\<close> and written to the CSV row is the largest
  \<open>\<bar>phi_dense[i] - scheme (i dx_dense)\<bar>\<close> over all indices \<open>i\<close> of the reference grid; for
  \<^verbatim>\<open>matched_holder\<close> it is the largest one over all indices but the last, which that
  loop leaves out. (As claimed, for all schemes alike, it fails: see the counterexample.)
\<close>
theorem sup_errors_recorded:
  assumes "grids_ok L p r" and "r < 31" and "1 \<le> p" and "2 \<le> length phi_dense"
  shows "\<exists>s'. r_body L p phi_dense dx_dense r s = Some s'
      \<and> m_map s' = foldl (\<lambda>mm e. map_insert e mm) []
                     (recorded phi_dense dx_dense (body_steps L p r (length phi_dense)))
      \<and> fs s' = fs s @ [IntT (int r), Str '', '']
                 @ concat (map (step_cells phi_dense dx_dense) (body_steps L p r (length phi_dense)))
      \<and> (\<forall>st \<in> set (body_steps L p r (length phi_dense)). step_sup_error phi_dense dx_dense st)"
proof -
  have pos: "0 < length phi_dense" using assms(4) by auto
  note res = r_body_result [OF assms(1,2,3) pos, of dx_dense s]
  have "\<forall>st \<in> set (body_steps L p r (length phi_dense)). step_sup_error phi_dense dx_dense st"
    using assms(1,2,4) by (rule body_steps_sup_errors)
  then show ?thesis
    unfolding res by (simp add: choose_best_frame body_start_def)
qed

lemma r_body_best:
  assumes "grids_ok L p r" and "r < 31" and "1 \<le> p" and "0 < length phi_dense"
  shows "\<exists>s'. r_body L p phi_dense dx_dense r s = Some s'
      \<and> m_map s' = foldl (\<lambda>mm e. map_insert e mm) []
                     (recorded phi_dense dx_dense (body_steps L p r (length phi_dense)))
      \<and> sorted_wrt (<) (map fst (m_map s'))
      \<and> (\<exists>pre. cout s' = pre @ [Str (CHR 0x09 # ''The best method for p = ''), IntT p,
                                  Str '' is the '', Str (best s'), Str ''\<newline>''])
      \<and> (if \<exists>e \<in> set (m_map s'). fst e < 1000000000
         then \<exists>e. (e, best s') \<in> set (m_map s') \<and> (\<forall>e' \<in> set (m_map s'). e \<le> fst e')
         else best s' = ''none'')"
proof -
  note res = r_body_result [OF assms, of dx_dense s]
  define s1 where "s1 = (body_start L p r s)
             \<lparr>calls := calls (body_start L p r s) @ map step_call (body_steps L p r (length phi_dense)),
              m_map := foldl (\<lambda>mm e. map_insert e mm) [] (recorded phi_dense dx_dense (body_steps L p r (length phi_dense))),
              fs := fs (body_start L p r s)
                    @ concat (map (step_cells phi_dense dx_dense) (body_steps L p r (length phi_dense)))\<rparr>"
  have r: "r_body L p phi_dense dx_dense r s = Some (choose_best p s1)"
    unfolding res s1_def ..
  have m: "m_map (choose_best p s1) = m_map s1" by (simp add: choose_best_frame)
  have m1: "m_map s1 = foldl (\<lambda>mm e. map_insert e mm) []
                     (recorded phi_dense dx_dense (body_steps L p r (length phi_dense)))"
    by (simp add: s1_def)
  obtain pre where pre: "cout (choose_best p s1) =
     cout s1 @ pre @ [Str (CHR 0x09 # ''The best method for p = ''), IntT p, Str '' is the '',
                     Str (best (choose_best p s1)), Str ''\<newline>'']"
    using choose_best_cout [of p s1] ..
  then have c: "\<exists>pre. cout (choose_best p s1) = pre @ [Str (CHR 0x09 # ''The best method for p = ''), IntT p,
                                  Str '' is the '', Str (best (choose_best p s1)), Str ''\<newline>'']"
    by (intro exI [of _ "cout s1 @ pre"]) simp
  note b = choose_best_min [of s1 p, folded m]
  have srt: "sorted_wrt (<) (map fst (m_map s1))" unfolding m1 by (rule recorded_sorted)
  show ?thesis unfolding r using m m1 c b srt by (intro exI [of _ "choose_best p s1"]) simp
qed

lemma linear_bound:
  assumes "linear p r phi x = Some v" and "\<forall>u \<in> set phi. \<bar>u\<bar> \<le> B" and "0 \<le> B"
  shows "\<bar>v\<bar> \<le> B"
proof (cases "x \<le> 0 \<or> x \<ge> of_int (2 * p - 1)")
  case True
  then have "v = 0" using assms(1) by (simp add: linear_def)
  then show ?thesis using assms(3) by simp
next
  case False
  define y where "y = of_int (shl1 r) * x"
  define t where "t = y - of_int \<lfloor>y\<rfloor>"
  from assms(1) False obtain kk where kk: "kk + 1 < length phi"
    and v: "v = (1 - t) * phi ! kk + t * phi ! (kk + 1)"
    by (auto simp: linear_def Let_def vec_at_def size_t_of_def y_def t_def
        split: if_splits Option.bind_splits)
  have t: "0 \<le> t" "t \<le> 1" unfolding t_def by linarith+
  have a: "\<bar>phi ! kk\<bar> \<le> B" and b: "\<bar>phi ! (kk + 1)\<bar> \<le> B"
    using assms(2) kk by simp_all
  have "\<bar>v\<bar> \<le> \<bar>(1 - t) * phi ! kk\<bar> + \<bar>t * phi ! (kk + 1)\<bar>" unfolding v by (rule abs_triangle_ineq)
  also have "\<dots> = (1 - t) * \<bar>phi ! kk\<bar> + t * \<bar>phi ! (kk + 1)\<bar>"
    using t by (simp add: abs_mult)
  also have "\<dots> \<le> (1 - t) * B + t * B"
    using t a b by (intro add_mono mult_left_mono) simp_all
  also have "\<dots> = B" by (simp add: algebra_simps)
  finally show ?thesis .
qed

lemma foldl_insert_keys:
  "fst ` set (foldl (\<lambda>mm e. map_insert e mm) mm es) = fst ` set mm \<union> fst ` set es"
  by (induction es arbitrary: mm) (auto simp: map_insert_keys)

lemma linear_recorded:
  "(sup_of d dx (linear p r (dyadic_grid L p 0 r)) (length d), ''linear interpolation'')
   \<in> set (recorded d dx (body_steps L p r (length d)))"
  by (simp add: body_steps_def Let_def)

lemma linear_error_small:
  assumes "grids_ok L p r" and "r < 31" and "0 < length d"
    and "\<forall>v \<in> set d. \<bar>v\<bar> \<le> B" and "\<forall>v \<in> set (dyadic_grid L p 0 r). \<bar>v\<bar> \<le> B"
  shows "sup_of d dx (linear p r (dyadic_grid L p 0 r)) (length d) \<le> 2 * B"
proof -
  define f where "f = linear p r (dyadic_grid L p 0 r)"
  have g: "length (dyadic_grid L p 0 r) = grid_points p r" using assms(1) by (simp add: grids_ok_def)
  have tot: "\<forall>x. f x \<noteq> None"
    unfolding f_def not_None_ex using linear_total [OF assms(2) g] by (rule allI)
  have le: "length d \<le> length d" by simp
  from sup_loop_is_sup_error [OF le assms(3) tot, of dx]
  obtain e where e: "sup_loop f d dx 0 (length d) 0 = Some e" "is_sup_error f d dx (length d) e"
    by (elim exE conjE)
  from e(2) obtain i where i: "i \<in> {0..<length d}"
    "\<exists>v. f (real i * dx) = Some v \<and> e = \<bar>d ! i - v\<bar>"
    unfolding is_sup_error_iff by (elim conjE bexE)
  from i(2) obtain v where v: "f (real i * dx) = Some v" "e = \<bar>d ! i - v\<bar>" by (elim exE conjE)
  have di: "\<bar>d ! i\<bar> \<le> B" using assms(4) i(1) by simp
  then have B0: "0 \<le> B" by linarith
  have "\<bar>v\<bar> \<le> B" using v(1) assms(5) B0 unfolding f_def by (rule linear_bound)
  then have "e \<le> 2 * B" using di unfolding v(2) by linarith
  then show ?thesis using e(1) by (simp add: sup_of_def f_def)
qed

lemma grids_ok_lib1: "grids_ok lib1 p r"
  by (simp add: grids_ok_def lib1_def)

lemma lib1_bounded: "\<forall>v \<in> set (dyadic_grid lib1 p k r). \<bar>v\<bar> \<le> 1"
  by (auto simp: lib1_def)

text \<open>
  Claim C1. When the values of the reference grid and of the candidate grid are bounded
  by some \<open>B\<close> with \<open>2 B < 1000000000\<close> (the scaling functions are bounded by a small
  constant), the loop body returns and prints, as its last line, a method \<^verbatim>\<open>best\<close> that is
  recorded in \<^verbatim>\<open>m\<close> with an error that is at most every error recorded in \<^verbatim>\<open>m\<close>. The
  map holds the errors inserted, in strictly increasing order. (The error of the linear
  interpolation is at most \<open>2 B\<close>, so the initial bound \<open>1000000000\<close> of \<^verbatim>\<open>best_sup\<close> is
  undercut.)
\<close>
theorem best_method_minimal:
  assumes "grids_ok L p r" and "r < 31" and "1 \<le> p" and "0 < length phi_dense"
    and "\<forall>v \<in> set phi_dense. \<bar>v\<bar> \<le> B" and "\<forall>v \<in> set (dyadic_grid L p 0 r). \<bar>v\<bar> \<le> B"
    and "2 * B < 1000000000"
  shows "\<exists>s'. r_body L p phi_dense dx_dense r s = Some s'
      \<and> m_map s' = foldl (\<lambda>mm e. map_insert e mm) []
                     (recorded phi_dense dx_dense (body_steps L p r (length phi_dense)))
      \<and> sorted_wrt (<) (map fst (m_map s'))
      \<and> (\<exists>pre. cout s' = pre @ [Str (CHR 0x09 # ''The best method for p = ''), IntT p,
                                  Str '' is the '', Str (best s'), Str ''\<newline>''])
      \<and> (\<exists>e. (e, best s') \<in> set (m_map s') \<and> (\<forall>e' \<in> set (m_map s'). e \<le> fst e'))"
proof -
  from r_body_best [OF assms(1-4), of dx_dense s] obtain s'
    where r: "r_body L p phi_dense dx_dense r s = Some s'"
      and m: "m_map s' = foldl (\<lambda>mm e. map_insert e mm) []
                     (recorded phi_dense dx_dense (body_steps L p r (length phi_dense)))"
      and srt: "sorted_wrt (<) (map fst (m_map s'))"
      and c: "\<exists>pre. cout s' = pre @ [Str (CHR 0x09 # ''The best method for p = ''), IntT p,
                                  Str '' is the '', Str (best s'), Str ''\<newline>'']"
      and b: "if \<exists>e \<in> set (m_map s'). fst e < 1000000000
         then \<exists>e. (e, best s') \<in> set (m_map s') \<and> (\<forall>e' \<in> set (m_map s'). e \<le> fst e')
         else best s' = ''none''"
    by blast
  define e0 where "e0 = sup_of phi_dense dx_dense (linear p r (dyadic_grid L p 0 r)) (length phi_dense)"
  have "e0 \<le> 2 * B" unfolding e0_def using assms(1,2,4,5,6) by (rule linear_error_small)
  then have small: "e0 < 1000000000" using assms(7) by linarith
  have "e0 \<in> fst ` set (recorded phi_dense dx_dense (body_steps L p r (length phi_dense)))"
    unfolding e0_def using linear_recorded [of phi_dense dx_dense p r L] by force
  then have "e0 \<in> fst ` set (m_map s')" unfolding m by (simp add: foldl_insert_keys)
  then have "\<exists>e \<in> set (m_map s'). fst e < 1000000000" using small by auto
  with b have "\<exists>e. (e, best s') \<in> set (m_map s') \<and> (\<forall>e' \<in> set (m_map s'). e \<le> fst e')"
    by simp
  with r m srt c show ?thesis by blast
qed

theorem best_method_minimal_witness:
  "(\<exists>s'. r_body lib1 2 [0, 1, 1 / 2, 0] 1 2 st0 = Some s'
        \<and> (\<exists>e. (e, best s') \<in> set (m_map s') \<and> (\<forall>e' \<in> set (m_map s'). e \<le> fst e')))
   \<and> map_option best (r_body lib1 2 [0, 1, 1 / 2, 0] 1 2 st0) = Some ''cubic_hermite_spline''
   \<and> map_option m_map (r_body lib1 2 [0, 1, 1 / 2, 0] 1 2 st0)
       = Some [(3 / 4, ''cubic_hermite_spline''), (1, ''matched_holder''), (3 / 2, ''cubic_b_spline''),
               (2, ''quintic_b_spline''), (3, ''quadratic_b_spline'')]"
proof -
  have h: "grids_ok lib1 2 2" "(2::nat) < 31" "(1::int) \<le> 2" "0 < length [0, 1, 1 / 2, 0::real]"
    "\<forall>v \<in> set [0, 1, 1 / 2, 0::real]. \<bar>v\<bar> \<le> 1" "\<forall>v \<in> set (dyadic_grid lib1 2 0 2). \<bar>v\<bar> \<le> 1"
    "2 * (1::real) < 1000000000"
    by (simp_all add: grids_ok_lib1 lib1_bounded)
  from best_method_minimal [OF h, of 1 st0] obtain s'
    where "r_body lib1 2 [0, 1, 1 / 2, 0] 1 2 st0 = Some s'"
      and "\<exists>e. (e, best s') \<in> set (m_map s') \<and> (\<forall>e' \<in> set (m_map s'). e \<le> fst e')"
    by blast
  then have a: "\<exists>s'. r_body lib1 2 [0, 1, 1 / 2, 0] 1 2 st0 = Some s'
        \<and> (\<exists>e. (e, best s') \<in> set (m_map s') \<and> (\<forall>e' \<in> set (m_map s'). e \<le> fst e'))"
    by blast
  have b: "map_option best (r_body lib1 2 [0, 1, 1 / 2, 0] 1 2 st0) = Some ''cubic_hermite_spline''
   \<and> map_option m_map (r_body lib1 2 [0, 1, 1 / 2, 0] 1 2 st0)
       = Some [(3 / 4, ''cubic_hermite_spline''), (1, ''matched_holder''), (3 / 2, ''cubic_b_spline''),
               (2, ''quintic_b_spline''), (3, ''quadratic_b_spline'')]"
    by (simp add: r_body_def scheme_block_def sup_loop.simps linear_def fotaylor_def lib1_def st0_def
      choose_best_def Let_def grid_points_def size_sub1_def vec_at_def grid_dx_def shl1_eq
      size_t_of_def)
  from a b show ?thesis by (rule conjI)
qed

lemma evaluated_append: "evaluated (xs @ ys) = evaluated xs @ evaluated ys"
  by (induction xs rule: evaluated.induct) simp_all

text \<open>
  Claim C4, amended. At each resolution the loop body evaluates nine schemes for
  \<open>p = 2\<close>, eleven for \<open>p = 3\<close> and thirteen for \<open>p > 3\<close>, under different names: never
  twelve.
\<close>
theorem number_of_schemes:
  assumes "grids_ok L p r" and "r < 31" and "2 \<le> p" and "0 < length phi_dense"
  shows "\<exists>s' new. r_body L p phi_dense dx_dense r s = Some s'
      \<and> calls s' = calls s @ new
      \<and> distinct (evaluated new)
      \<and> length (evaluated new) = (if p = 2 then 9 else if p = 3 then 11 else 13)"
proof -
  have p1: "1 \<le> p" using assms(3) by simp
  note res = r_body_result [OF assms(1,2) p1 assms(4), of dx_dense s]
  define new where "new = [Dyadic_grid p 0 r, Dyadic_grid p 1 r] @ map step_call (body_steps L p r (length phi_dense))"
  have c: "calls (the (r_body L p phi_dense dx_dense r s)) = calls s @ new"
    unfolding res by (simp add: choose_best_frame body_start_def new_def)
  consider "p = 2" | "p = 3" | "p > 3" using assms(3) by linarith
  then have "distinct (evaluated new) \<and> length (evaluated new) = (if p = 2 then 9 else if p = 3 then 11 else 13)"
  proof cases
    case 1
    then show ?thesis by (simp add: new_def body_steps_def Let_def)
  next
    case 2
    then show ?thesis by (simp add: new_def body_steps_def Let_def)
  next
    case 3
    then show ?thesis by (simp add: new_def body_steps_def Let_def)
  qed
  then show ?thesis using c unfolding res by simp
qed

lemma grids_ok_lib0: "grids_ok lib0 p r"
  by (simp add: grids_ok_def lib0_def)

theorem sup_errors_recorded_witness:
  "grids_ok lib0 2 2 \<and> (2::nat) < 31 \<and> (1::int) \<le> 2 \<and> 2 \<le> length [0::real, 1]
   \<and> (\<exists>s'. r_body lib0 2 [0, 1] 3 2 st0 = Some s'
        \<and> (\<forall>st \<in> set (body_steps lib0 2 2 (length [0::real, 1])). step_sup_error [0, 1] 3 st))"
proof -
  have h: "grids_ok lib0 2 2" "(2::nat) < 31" "(1::int) \<le> 2" "2 \<le> length [0::real, 1]"
    by (simp_all add: grids_ok_lib0)
  from sup_errors_recorded [OF h, of 3 st0] obtain s'
    where "r_body lib0 2 [0, 1] 3 2 st0 = Some s'"
      and "\<forall>st \<in> set (body_steps lib0 2 2 (length [0::real, 1])). step_sup_error [0, 1] 3 st"
    by (elim exE conjE)
  then show ?thesis using h by (intro conjI exI [of _ s'])
qed

theorem sup_errors_counterexample:
  "map_option (hd \<circ> m_map) (r_body lib0 2 [0, 1] 3 2 st0) = Some (0, ''matched_holder'')
   \<and> map_option (hd \<circ> tl \<circ> tl \<circ> fs) (r_body lib0 2 [0, 1] 3 2 st0) = Some (RealT 0)
   \<and> \<bar>[0, 1] ! 1 - matched_holder lib0 (dyadic_grid lib0 2 0 2) (dyadic_grid lib0 2 1 2) 2 (real 1 * 3)\<bar> = 1
   \<and> \<not> is_sup_error (Some \<circ> matched_holder lib0 (dyadic_grid lib0 2 0 2) (dyadic_grid lib0 2 1 2) 2)
          [0, 1] 3 (length [0::real, 1]) 0"
proof -
  have "map_option (hd \<circ> m_map) (r_body lib0 2 [0, 1] 3 2 st0) = Some (0, ''matched_holder'')
   \<and> map_option (hd \<circ> tl \<circ> tl \<circ> fs) (r_body lib0 2 [0, 1] 3 2 st0) = Some (RealT 0)"
    by (simp add: r_body_def scheme_block_def sup_loop.simps linear_def fotaylor_def lib0_def st0_def
      choose_best_def Let_def grid_points_def size_sub1_def vec_at_def grid_dx_def shl1_eq)
  moreover have "\<bar>[0, 1] ! 1 - matched_holder lib0 (dyadic_grid lib0 2 0 2) (dyadic_grid lib0 2 1 2) 2 (real 1 * 3)\<bar> = 1"
    by (simp add: lib0_def)
  moreover have "\<not> is_sup_error (Some \<circ> matched_holder lib0 (dyadic_grid lib0 2 0 2) (dyadic_grid lib0 2 1 2) 2)
          [0, 1] 3 (length [0::real, 1]) 0"
  proof
    assume "is_sup_error (Some \<circ> matched_holder lib0 (dyadic_grid lib0 2 0 2) (dyadic_grid lib0 2 1 2) 2)
          [0, 1] 3 (length [0::real, 1]) 0"
    then have "\<forall>i \<in> {0..<2}. \<bar>[0, 1::real] ! i\<bar> \<le> 0"
      by (simp add: is_sup_error_iff lib0_def)
    moreover have "(1::nat) \<in> {0..<2}" by simp
    ultimately have "\<bar>[0, 1::real] ! 1\<bar> \<le> 0" by (rule bspec)
    then show False by simp
  qed
  ultimately show ?thesis by (intro conjI) simp_all
qed

theorem number_of_schemes_witness:
  "grids_ok lib0 2 2 \<and> (2::nat) < 31 \<and> (2::int) \<le> 2 \<and> 0 < length [0::real, 1]
   \<and> (\<exists>s' new. r_body lib0 2 [0, 1] 3 2 st0 = Some s' \<and> calls s' = calls st0 @ new
        \<and> distinct (evaluated new)
        \<and> length (evaluated new) = (if (2::int) = 2 then 9 else if (2::int) = 3 then 11 else 13))"
proof -
  have h: "grids_ok lib0 2 2" "(2::nat) < 31" "(2::int) \<le> 2" "0 < length [0::real, 1]"
    by (simp_all add: grids_ok_lib0)
  from number_of_schemes [OF h, of 3 st0] show ?thesis using h by (intro conjI)
qed

theorem number_of_schemes_counterexample:
  "map_option (length \<circ> evaluated \<circ> calls) (r_body lib0 2 [0, 1] 3 2 st0) = Some 9"
  by (simp add: r_body_def scheme_block_def sup_loop.simps linear_def fotaylor_def lib0_def st0_def
      choose_best_def Let_def grid_points_def size_sub1_def vec_at_def grid_dx_def shl1_eq
      best_loop_frame)

section \<open>The sweep over \<open>r\<close> and over \<open>p\<close>\<close>

lemma r_body_effect:
  assumes "grids_ok L p r" and "r < 31" and "1 \<le> p" and "0 < length d"
  shows "\<exists>s'. r_body L p d dx r s = Some s'
      \<and> fs s' = fs s @ row_tokens L p d dx r
      \<and> calls s' = calls s @ body_calls L p (length d) r
      \<and> (\<exists>out. cout s' = cout s @ out)"
proof -
  note res = r_body_result [OF assms, of dx s]
  define s1 where "s1 = (body_start L p r s)
             \<lparr>calls := calls (body_start L p r s) @ map step_call (body_steps L p r (length d)),
              m_map := foldl (\<lambda>mm e. map_insert e mm) [] (recorded d dx (body_steps L p r (length d))),
              fs := fs (body_start L p r s)
                    @ concat (map (step_cells d dx) (body_steps L p r (length d)))\<rparr>"
  have r: "r_body L p d dx r s = Some (choose_best p s1)" unfolding res s1_def ..
  have f: "fs (choose_best p s1) = fs s @ row_tokens L p d dx r"
    by (simp add: choose_best_frame s1_def body_start_def row_tokens_def)
  have c: "calls (choose_best p s1) = calls s @ body_calls L p (length d) r"
    by (simp add: choose_best_frame s1_def body_start_def body_calls_def)
  obtain pre where "cout (choose_best p s1) =
     cout s1 @ pre @ [Str (CHR 0x09 # ''The best method for p = ''), IntT p, Str '' is the '',
                     Str (best (choose_best p s1)), Str ''\<newline>'']"
    using choose_best_cout [of p s1] ..
  then have "\<exists>out. cout (choose_best p s1) = cout s @ out"
    by (simp add: s1_def body_start_def)
  then show ?thesis unfolding r using f c by simp
qed

lemma r_loop_effect:
  assumes "\<forall>r'. r \<le> r' \<and> r' < rmax - 1 \<longrightarrow> grids_ok L p r' \<and> r' < 31"
    and "1 \<le> p" and "0 < length d"
  shows "\<exists>s'. r_loop L p d dx r rmax s = Some s'
      \<and> fs s' = fs s @ concat (map (row_tokens L p d dx) [r..<rmax - 1])
      \<and> calls s' = calls s @ concat (map (body_calls L p (length d)) [r..<rmax - 1])
      \<and> (\<exists>out. cout s' = cout s @ out)"
  using assms(1)
proof (induction "rmax - 1 - r" arbitrary: r s)
  case 0
  then have "\<not> r < rmax - 1" by simp
  then show ?case by (subst r_loop.simps) simp
next
  case (Suc k)
  then have lt: "r < rmax - 1" by simp
  then have g: "grids_ok L p r" "r < 31" using Suc.prems by simp_all
  from r_body_effect [OF g assms(2,3), of dx s] obtain s1 where s1: "r_body L p d dx r s = Some s1"
    "fs s1 = fs s @ row_tokens L p d dx r" "calls s1 = calls s @ body_calls L p (length d) r"
    "\<exists>out. cout s1 = cout s @ out" by blast
  have unf: "r_loop L p d dx r rmax s = r_loop L p d dx (r + 1) rmax s1"
    using lt s1(1) by (subst r_loop.simps) simp
  have k: "k = rmax - 1 - (r + 1)" using Suc.hyps(2) by simp
  have "\<forall>r'. r + 1 \<le> r' \<and> r' < rmax - 1 \<longrightarrow> grids_ok L p r' \<and> r' < 31" using Suc.prems by simp
  from Suc.hyps(1) [OF k this, of s1] obtain s' where s': "r_loop L p d dx (r + 1) rmax s1 = Some s'"
    "fs s' = fs s1 @ concat (map (row_tokens L p d dx) [r + 1..<rmax - 1])"
    "calls s' = calls s1 @ concat (map (body_calls L p (length d)) [r + 1..<rmax - 1])"
    "\<exists>out. cout s' = cout s1 @ out" by blast
  have up: "[r..<rmax - 1] = r # [r + 1..<rmax - 1]" using lt by (simp add: upt_conv_Cons)
  from s1(4) s'(4) have "\<exists>out. cout s' = cout s @ out" by auto
  then show ?case unfolding unf up using s'(1,2,3) s1(2,3) by simp
qed

lemma find_best_interpolator_effect:
  assumes "\<forall>r. grids_ok L p r" and "1 \<le> p"
  shows "\<exists>w'. find_best_interpolator L p w = Some w'
      \<and> files w' = (files w)(file_name p \<mapsto>
          header p @ concat (map (row_tokens L p (dyadic_grid L p 0 17)
             (of_int (2 * p - 1) / real (size_sub1 (length (dyadic_grid L p 0 17))))) [2..<16]))
      \<and> lib_calls w' = lib_calls w @ invocation_calls L p
      \<and> (\<exists>out. console w' = console w @ [Str ''Computing phi_dense_precise\<newline>'', Str ''Done\<newline>''] @ out)"
proof -
  define d where "d = dyadic_grid L p 0 17"
  define dx where "dx = real_of_int (2 * p - 1) / real (size_sub1 (length d))"
  define s where "s = \<lparr>fs = header p,
      cout = console w @ [Str ''Computing phi_dense_precise\<newline>'', Str ''Done\<newline>''],
      calls = lib_calls w @ [Dyadic_grid p 0 17], m_map = [], best = [], best_sup = 0\<rparr>"
  have "length d = grid_points p 17" using assms(1) by (simp add: d_def grids_ok_def)
  then have pos: "0 < length d" using grid_points_nonempty [OF assms(2), of 17] by simp
  have g: "\<forall>r'. 2 \<le> r' \<and> r' < 17 - 1 \<longrightarrow> grids_ok L p r' \<and> r' < 31" using assms(1) by simp
  from r_loop_effect [OF g assms(2) pos, of dx s] obtain s' where s': "r_loop L p d dx 2 17 s = Some s'"
    "fs s' = fs s @ concat (map (row_tokens L p d dx) [2..<17 - 1])"
    "calls s' = calls s @ concat (map (body_calls L p (length d)) [2..<17 - 1])"
    "\<exists>out. cout s' = cout s @ out" by blast
  have fbi: "find_best_interpolator L p w =
      Some (w\<lparr>files := (files w)(file_name p \<mapsto> fs s'), console := cout s', lib_calls := calls s'\<rparr>)"
    using s'(1) unfolding d_def dx_def s_def
    by (simp add: find_best_interpolator_def Let_def file_name_def)
  have c: "calls s' = lib_calls w @ invocation_calls L p"
    using s'(3) by (simp add: s_def invocation_calls_def d_def)
  have f: "fs s' = header p @ concat (map (row_tokens L p d dx) [2..<16])"
    using s'(2) by (simp add: s_def)
  from s'(4) have o: "\<exists>out. cout s' = console w @ [Str ''Computing phi_dense_precise\<newline>'', Str ''Done\<newline>''] @ out"
    by (simp add: s_def)
  show ?thesis unfolding fbi using c f o by (simp add: d_def dx_def)
qed

lemma upt_2_16: "map int [2..<16] = [2, 3, 4, 5, 6, 7, 8, 9, 10, 11, 12, 13, 14, 15]"
  by (simp add: upt_rec)

lemma main_fold:
  "main L w = fold (\<lambda>p wo. Option.bind wo (find_best_interpolator L p)) (map int [2..<16]) (Some w)"
  unfolding upt_2_16 by (simp add: main_def)

lemma body_calls_level:
  "c \<in> set (body_calls L p n r) \<Longrightarrow> c \<noteq> Dyadic_grid q k 17 \<or> r = 17"
  by (auto simp: body_calls_def body_steps_def Let_def split: if_splits)

lemma invocation_calls_shape:
  "\<exists>rest. invocation_calls L p = Dyadic_grid p 0 17 # rest \<and> Dyadic_grid p 0 17 \<notin> set rest"
proof -
  define rest where "rest = concat (map (body_calls L p (length (dyadic_grid L p 0 17))) [2..<16])"
  have "Dyadic_grid p 0 17 \<notin> set rest"
  proof
    assume "Dyadic_grid p 0 17 \<in> set rest"
    then obtain r where r: "r \<in> set [2..<16]"
      "Dyadic_grid p 0 17 \<in> set (body_calls L p (length (dyadic_grid L p 0 17)) r)"
      unfolding rest_def by auto
    from body_calls_level [OF r(2), of p 0] have "r = 17" by simp
    then show False using r(1) by simp
  qed
  then show ?thesis unfolding invocation_calls_def rest_def [symmetric] by simp
qed

lemma digit_props: "k < 10 \<Longrightarrow> digit_value (digit k) = k \<and> digit k \<in> set ''0123456789''"
proof -
  assume "k < 10"
  then consider "k = 0" | "k = 1" | "k = 2" | "k = 3" | "k = 4" | "k = 5" | "k = 6" | "k = 7"
    | "k = 8" | "k = 9" by atomize_elim arith
  then show ?thesis by cases (simp_all add: digit_def digit_value_def)
qed

lemma dec_value_snoc: "dec_value (ds @ [c]) = 10 * dec_value ds + digit_value c"
  by (simp add: dec_value_def)

lemma string_of_nat_props:
  "dec_value (string_of_nat n) = n \<and> set (string_of_nat n) \<subseteq> set ''0123456789''
   \<and> string_of_nat n \<noteq> [] \<and> (hd (string_of_nat n) = CHR ''0'' \<longrightarrow> n = 0)"
proof (induction n rule: string_of_nat.induct)
  case (1 n)
  show ?case
  proof (cases "n < 10")
    case True
    then have s: "string_of_nat n = [digit n]" by (subst string_of_nat.simps) simp
    have d: "digit_value (digit n) = n" "digit n \<in> set ''0123456789''"
      using digit_props [OF True] by simp_all
    have "digit n = CHR ''0'' \<longrightarrow> n = 0" using d(1) by (auto simp: digit_value_def)
    then show ?thesis unfolding s using d by (simp add: dec_value_def)
  next
    case False
    then have s: "string_of_nat n = string_of_nat (n div 10) @ [digit (n mod 10)]"
      by (subst string_of_nat.simps) simp
    have m: "n mod 10 < 10" by simp
    note d = digit_props [OF m]
    note ih = "1.IH" [OF False]
    have "n div 10 \<noteq> 0" using False by simp
    then have "hd (string_of_nat (n div 10)) \<noteq> CHR ''0''" using ih by auto
    moreover have "dec_value (string_of_nat n) = n"
      unfolding s dec_value_snoc using ih d by simp
    moreover have "set (string_of_nat n) \<subseteq> set ''0123456789''"
      unfolding s using ih d by simp
    ultimately show ?thesis unfolding s using ih by simp
  qed
qed

lemma file_names_sweep: "map file_name (map int [2..<16]) = sweep_files"
  unfolding upt_2_16
  by (simp add: file_name_def to_string_def string_of_nat.simps digit_def sweep_files_def)

lemma reals_of_step_cells:
  "reals_of (concat (map (step_cells d dx) steps)) = map fst (recorded d dx steps)"
proof (induction steps)
  case Nil
  show ?case by simp
next
  case (Cons a steps)
  then show ?case by (cases a) simp_all
qed

lemma reals_of_row_tokens:
  "reals_of (row_tokens L p d dx r) = map fst (recorded d dx (body_steps L p r (length d)))"
  by (simp add: row_tokens_def reals_of_step_cells)

lemma recorded_cell_errors:
  "\<forall>st \<in> set steps. step_sup_error d dx st \<Longrightarrow>
   list_all2 (is_cell_error d dx) (map fst (recorded d dx steps)) (sup_steps steps)"
proof (induction steps)
  case Nil
  show ?case by simp
next
  case (Cons a steps)
  then show ?case by (cases a) simp_all
qed

lemma row_cell_errors:
  assumes "grids_ok L p r" and "r < 31" and "2 \<le> length d"
  shows "list_all2 (is_cell_error d dx) (reals_of (row_tokens L p d dx r))
           (sup_steps (body_steps L p r (length d)))"
  unfolding reals_of_row_tokens
  using body_steps_sup_errors [OF assms, of dx] by (rule recorded_cell_errors)

lemma reference_grid_size:
  assumes "grids_ok L p 17" and "1 \<le> p"
  shows "2 \<le> length (dyadic_grid L p 0 17)"
proof -
  have "length (dyadic_grid L p 0 17) = grid_points p 17" using assms(1) by (simp add: grids_ok_def)
  moreover have "(2::nat) ^ 17 < grid_points p 17" using assms(2) by (rule grid_points_pos)
  ultimately show ?thesis by simp
qed

lemma sweep_files_effect:
  assumes "\<forall>p \<in> set ps. 1 \<le> p \<and> (\<forall>r. grids_ok L p r)" and "distinct (map file_name ps)"
  shows "\<exists>w'. fold (\<lambda>p wo. Option.bind wo (find_best_interpolator L p)) ps (Some w) = Some w'
      \<and> lib_calls w' = lib_calls w @ concat (map (invocation_calls L) ps)
      \<and> (\<forall>p \<in> set ps. files w' (file_name p) = Some (file_content L p))
      \<and> (\<forall>name. name \<notin> set (map file_name ps) \<longrightarrow> files w' name = files w name)"
  using assms
proof (induction ps arbitrary: w)
  case Nil
  show ?case by simp
next
  case (Cons p ps)
  then have p: "\<forall>r. grids_ok L p r" "1 \<le> p" by simp_all
  from find_best_interpolator_effect [OF p, of w] obtain w1
    where w1: "find_best_interpolator L p w = Some w1"
      "files w1 = (files w)(file_name p \<mapsto> file_content L p)"
      "lib_calls w1 = lib_calls w @ invocation_calls L p"
    unfolding file_content_def reference_dx_def by blast
  have a: "\<forall>p \<in> set ps. 1 \<le> p \<and> (\<forall>r. grids_ok L p r)" using Cons.prems(1) by simp
  have b: "distinct (map file_name ps)" using Cons.prems(2) by simp
  have np: "file_name p \<notin> set (map file_name ps)" using Cons.prems(2) by simp
  from Cons.IH [OF a b, of w1] obtain w'
    where w': "fold (\<lambda>p wo. Option.bind wo (find_best_interpolator L p)) ps (Some w1) = Some w'"
      "lib_calls w' = lib_calls w1 @ concat (map (invocation_calls L) ps)"
      "\<forall>q \<in> set ps. files w' (file_name q) = Some (file_content L q)"
      "\<forall>name. name \<notin> set (map file_name ps) \<longrightarrow> files w' name = files w1 name"
    by blast
  have f1: "fold (\<lambda>p wo. Option.bind wo (find_best_interpolator L p)) (p # ps) (Some w) = Some w'"
    using w1(1) w'(1) by simp
  have f2: "lib_calls w' = lib_calls w @ concat (map (invocation_calls L) (p # ps))"
    using w1(3) w'(2) by simp
  have "files w' (file_name p) = Some (file_content L p)"
    using w'(4) np w1(2) by simp
  then have f3: "\<forall>q \<in> set (p # ps). files w' (file_name q) = Some (file_content L q)"
    using w'(3) by simp
  have f4: "\<forall>name. name \<notin> set (map file_name (p # ps)) \<longrightarrow> files w' name = files w name"
    using w'(4) w1(2) by simp
  from f1 f2 f3 f4 show ?case by blast
qed

lemma nth_map_int_upt: "k < b - a \<Longrightarrow> map int [a..<b] ! k = int (a + k)"
  by simp

lemma mem_map_int_upt: "0 \<le> p \<Longrightarrow> a \<le> nat p \<Longrightarrow> nat p < b \<Longrightarrow> p \<in> set (map int [a..<b])"
  by (auto intro: image_eqI [of _ _ "nat p"])

lemma sweep_file_name:
  assumes "2 \<le> p" and "p \<le> 15"
  shows "sweep_files ! nat (p - 2) = file_name p"
proof -
  have k: "nat (p - 2) < length (map int [2..<16])" using assms by simp
  have "sweep_files ! nat (p - 2) = map file_name (map int [2..<16]) ! nat (p - 2)"
    by (simp only: file_names_sweep)
  also have "\<dots> = file_name (map int [2..<16] ! nat (p - 2))" using k by (rule nth_map)
  also have "map int [2..<16] ! nat (p - 2) = int (2 + nat (p - 2))"
    by (rule nth_map_int_upt) (use assms in simp)
  also have "int (2 + nat (p - 2)) = p" using assms by simp
  finally show ?thesis .
qed

text \<open>
  Claim C3. \<^verbatim>\<open>main\<close> is the sequence of the invocations of \<^verbatim>\<open>find_best_interpolator\<close> for
  \<open>p = 2, \<dots>, 15\<close>, one each and in increasing order. It returns; its library calls are
  those of the fourteen invocations in that order; it writes the fourteen files
  \<^verbatim>\<open>daubechies_<p>_scaling_convergence.csv\<close> and no other, the file for \<open>p\<close> holding the header
  and the rows computed against the reference grid \<open>dyadic_grid L p 0 17\<close>. The calls of an
  invocation start with that grid, which is built once and before any scheme is evaluated,
  and every number in its rows is the largest deviation of a scheme from that grid.
\<close>
theorem main_sweep:
  assumes "\<forall>p \<in> {2..15}. \<forall>r. grids_ok L p r"
  shows "main L w = fold (\<lambda>p wo. Option.bind wo (find_best_interpolator L p)) (map int [2..<16]) (Some w)
     \<and> (\<exists>w'. main L w = Some w'
           \<and> lib_calls w' = lib_calls w @ concat (map (invocation_calls L) (map int [2..<16]))
           \<and> (\<forall>p \<in> {2..15}. files w' (sweep_files ! nat (p - 2)) = Some (file_content L p))
           \<and> (\<forall>name. name \<notin> set sweep_files \<longrightarrow> files w' name = files w name))
     \<and> (\<forall>p. \<exists>rest. invocation_calls L p = Dyadic_grid p 0 17 # rest \<and> Dyadic_grid p 0 17 \<notin> set rest)
     \<and> (\<forall>p \<in> {2..15}. \<forall>r \<in> {2..15}.
           list_all2 (is_cell_error (dyadic_grid L p 0 17) (reference_dx L p))
             (reals_of (row_tokens L p (dyadic_grid L p 0 17) (reference_dx L p) r))
             (sup_steps (body_steps L p r (length (dyadic_grid L p 0 17)))))"
proof -
  have ps: "\<forall>p \<in> set (map int [2..<16]). 1 \<le> p \<and> (\<forall>r. grids_ok L p r)"
    using assms by auto
  have dist: "distinct (map file_name (map int [2..<16]))"
    unfolding file_names_sweep by (simp add: sweep_files_def)
  from sweep_files_effect [OF ps dist, of w] obtain w'
    where w': "fold (\<lambda>p wo. Option.bind wo (find_best_interpolator L p)) (map int [2..<16]) (Some w) = Some w'"
      "lib_calls w' = lib_calls w @ concat (map (invocation_calls L) (map int [2..<16]))"
      "\<forall>p \<in> set (map int [2..<16]). files w' (file_name p) = Some (file_content L p)"
      "\<forall>name. name \<notin> set (map file_name (map int [2..<16])) \<longrightarrow> files w' name = files w name"
    by blast
  have a: "\<forall>p \<in> {2..15}. files w' (sweep_files ! nat (p - 2)) = Some (file_content L p)"
  proof
    fix p :: int assume p: "p \<in> {2..15}"
    then have "0 \<le> p" "2 \<le> nat p" "nat p < 16" by auto
    then have "p \<in> set (map int [2..<16])" by (rule mem_map_int_upt)
    then have "files w' (file_name p) = Some (file_content L p)" using w'(3) by blast
    then show "files w' (sweep_files ! nat (p - 2)) = Some (file_content L p)"
      using sweep_file_name [of p] p by simp
  qed
  have b: "\<forall>name. name \<notin> set sweep_files \<longrightarrow> files w' name = files w name"
    using w'(4) unfolding file_names_sweep .
  have c: "\<forall>p \<in> {2..15}. \<forall>r \<in> {2..15}.
           list_all2 (is_cell_error (dyadic_grid L p 0 17) (reference_dx L p))
             (reals_of (row_tokens L p (dyadic_grid L p 0 17) (reference_dx L p) r))
             (sup_steps (body_steps L p r (length (dyadic_grid L p 0 17))))"
  proof (intro ballI)
    fix p :: int and r :: nat assume p: "p \<in> {2..15}" and r: "r \<in> {2..15}"
    have g: "grids_ok L p r" "grids_ok L p 17" using assms p by simp_all
    have p1: "1 \<le> p" using p by simp
    have r31: "r < 31" using r by simp
    show "list_all2 (is_cell_error (dyadic_grid L p 0 17) (reference_dx L p))
             (reals_of (row_tokens L p (dyadic_grid L p 0 17) (reference_dx L p) r))
             (sup_steps (body_steps L p r (length (dyadic_grid L p 0 17))))"
      using g(1) r31 reference_grid_size [OF g(2) p1] by (rule row_cell_errors)
  qed
  have m: "\<exists>w'. main L w = Some w'
           \<and> lib_calls w' = lib_calls w @ concat (map (invocation_calls L) (map int [2..<16]))
           \<and> (\<forall>p \<in> {2..15}. files w' (sweep_files ! nat (p - 2)) = Some (file_content L p))
           \<and> (\<forall>name. name \<notin> set sweep_files \<longrightarrow> files w' name = files w name)"
    unfolding main_fold using w'(1,2) a b by blast
  have i: "\<forall>p. \<exists>rest. invocation_calls L p = Dyadic_grid p 0 17 # rest \<and> Dyadic_grid p 0 17 \<notin> set rest"
    using invocation_calls_shape by blast
  from main_fold m i c show ?thesis by (intro conjI)
qed

theorem main_sweep_witness:
  "\<exists>w'. main lib1 world0 = Some w'
      \<and> lib_calls w' = concat (map (invocation_calls lib1) (map int [2..<16]))
      \<and> files w' ''daubechies_2_scaling_convergence.csv'' = Some (file_content lib1 2)"
proof -
  have h: "\<forall>p \<in> {2..15}. \<forall>r. grids_ok lib1 p r" by (simp add: grids_ok_lib1)
  have two: "(2::int) \<in> {2..15}" by simp
  from main_sweep [OF h, of world0] obtain w' where w': "main lib1 world0 = Some w'"
    "lib_calls w' = lib_calls world0 @ concat (map (invocation_calls lib1) (map int [2..<16]))"
    "\<forall>p \<in> {2..15}. files w' (sweep_files ! nat (p - 2)) = Some (file_content lib1 p)"
    by blast
  from w'(3) two have "files w' (sweep_files ! nat (2 - 2)) = Some (file_content lib1 2)" by (rule bspec)
  then have "files w' ''daubechies_2_scaling_convergence.csv'' = Some (file_content lib1 2)"
    by (simp add: sweep_files_def)
  with w'(1,2) show ?thesis by (simp add: world0_def)
qed

section \<open>The CSV file\<close>

lemma atoms_append: "atoms (xs @ ys) = atoms xs @ atoms ys"
  by (induction xs rule: atoms.induct) simp_all

lemma atoms_concat: "atoms (concat xss) = concat (map atoms xss)"
  by (induction xss) (simp_all add: atoms_append)

lemma split_at_ne: "split_at c xs \<noteq> []"
  by (induction xs) (simp_all split: list.splits)

lemma split_at_none: "c \<notin> set xs \<Longrightarrow> split_at c xs = [xs]"
  by (induction xs) auto

lemma split_at_first: "c \<notin> set xs \<Longrightarrow> split_at c (xs @ c # ys) = xs # split_at c ys"
  by (induction xs) auto

lemma split_at_lines:
  "\<forall>l \<in> set ls. c \<notin> set l \<Longrightarrow> split_at c (concat (map (\<lambda>l. l @ [c]) ls)) = ls @ [[]]"
proof (induction ls)
  case Nil
  show ?case by simp
next
  case (Cons l ls)
  then have "c \<notin> set l" by simp
  from split_at_first [OF this, of "concat (map (\<lambda>l. l @ [c]) ls)"] Cons show ?case by simp
qed

lemma csv_rows_lines:
  "\<forall>l \<in> set ls. Ch CHR ''\<newline>'' \<notin> set l \<Longrightarrow>
   csv_rows (concat (map (\<lambda>l. l @ [Ch CHR ''\<newline>'']) ls)) = ls"
  by (simp add: csv_rows_def split_at_lines)

lemma split_cells:
  "Ch CHR '','' \<notin> set pre \<Longrightarrow>
   split_at (Ch CHR '','') (pre @ concat (map (\<lambda>e. [Ch CHR '','', Ch CHR '' '', RealA e]) es))
   = pre # map (\<lambda>e. [Ch CHR '' '', RealA e]) es"
proof (induction es arbitrary: pre)
  case Nil
  then show ?case by (simp add: split_at_none)
next
  case (Cons e es)
  have "Ch CHR '','' \<notin> set [Ch CHR '' '', RealA e]" by simp
  from Cons.IH [OF this] split_at_first [OF Cons.prems,
      of "[Ch CHR '' '', RealA e] @ concat (map (\<lambda>e. [Ch CHR '','', Ch CHR '' '', RealA e]) es)"]
  show ?case by simp
qed

lemma row_line_cells: "split_at (Ch CHR '','') (row_line r es) = data_cells r es"
  using split_cells [of "[IntA (int r)]" es] by (simp add: row_line_def data_cells_def)

lemma row_line_no_newline: "Ch CHR ''\<newline>'' \<notin> set (row_line r es)"
  by (auto simp: row_line_def)

lemma row_tokens_atoms:
  assumes "2 \<le> p"
  shows "atoms (row_tokens L p d dx r)
         = row_line r (map fst (recorded d dx (body_steps L p r (length d)))) @ [Ch CHR ''\<newline>'']
       \<and> length (recorded d dx (body_steps L p r (length d))) + 1 = length (columns p)"
proof -
  consider "p = 2" | "p = 3" | "p > 3" using assms by linarith
  then show ?thesis
  proof cases
    case 1
    then show ?thesis by (simp add: row_tokens_def body_steps_def Let_def row_line_def columns_def)
  next
    case 2
    then show ?thesis by (simp add: row_tokens_def body_steps_def Let_def row_line_def columns_def)
  next
    case 3
    then show ?thesis by (simp add: row_tokens_def body_steps_def Let_def row_line_def columns_def)
  qed
qed

lemma header_atoms:
  "atoms (header p) = header_line p @ [Ch CHR ''\<newline>'']"
  by (simp add: header_def header_line_def columns_def)

lemma header_cells:
  "split_at (Ch CHR '','') (header_line p) = map (map Ch) (columns p)"
  by (simp add: header_line_def columns_def)

lemma header_no_newline: "Ch CHR ''\<newline>'' \<notin> set (header_line p)"
  by (auto simp: header_line_def columns_def)


lemma nth_map_upt_shift: "a \<le> r \<Longrightarrow> r < b \<Longrightarrow> map g [a..<b] ! (r - a) = g r"
  by simp

lemma nth_rows:
  assumes "2 \<le> r" and "r \<le> 15"
  shows "(h # map g [2..<16]) ! (r - 1) = g r"
proof -
  have "r - 1 = Suc (r - 2)" using assms(1) by simp
  then have "(h # map g [2..<16]) ! (r - 1) = map g [2..<16] ! (r - 2)" by (simp only: nth_Cons_Suc)
  also have "\<dots> = g r" by (rule nth_map_upt_shift) (use assms in simp_all)
  finally show ?thesis .
qed

lemma column_scheme_names:
  assumes "2 \<le> p"
  shows "zip (tl (columns p)) (map fst (sup_steps (body_steps L p r n)))
         = take (length (columns p) - 1) column_schemes"
proof -
  consider "p = 2" | "p = 3" | "p > 3" using assms by linarith
  then show ?thesis
  proof cases
    case 1
    then show ?thesis by (simp add: body_steps_def Let_def columns_def column_schemes_def)
  next
    case 2
    then show ?thesis by (simp add: body_steps_def Let_def columns_def column_schemes_def)
  next
    case 3
    then show ?thesis by (simp add: body_steps_def Let_def columns_def column_schemes_def)
  qed
qed

text \<open>
  Claim C5. For \<open>p \<ge> 2\<close> the file \<^verbatim>\<open>daubechies_<p>_scaling_convergence.csv\<close>, where \<^verbatim>\<open><p>\<close>
  is \<open>p\<close> in decimal digits without a leading zero, holds fifteen rows: the header row
  with the column names for \<open>p\<close>, then one row for each \<open>r = 2, \<dots>, 15\<close>, which starts with
  \<open>r\<close> and holds one number for each remaining column; the columns are those of the schemes
  evaluated, in their order, and each number is the sup-norm error of its scheme against
  the reference grid: the largest deviation over the points the scheme's loop visits.
\<close>
theorem csv_output:
  assumes "\<forall>r. grids_ok L p r" and "2 \<le> p"
  shows "\<exists>w' ds content. find_best_interpolator L p w = Some w'
      \<and> files w' (''daubechies_'' @ ds @ ''_scaling_convergence.csv'') = Some content
      \<and> set ds \<subseteq> set ''0123456789'' \<and> dec_value ds = nat p \<and> hd ds \<noteq> CHR ''0''
      \<and> length (csv_table content) = 15
      \<and> csv_table content ! 0 = map (map Ch) (columns p)
      \<and> (\<forall>r \<in> {2..15}. \<exists>es.
            csv_table content ! (r - 1) = [IntA (int r)] # map (\<lambda>e. [Ch CHR '' '', RealA e]) es
            \<and> length es + 1 = length (columns p)
            \<and> zip (tl (columns p)) (map fst (sup_steps (body_steps L p r (length (dyadic_grid L p 0 17)))))
              = take (length (columns p) - 1) column_schemes
            \<and> list_all2 (is_cell_error (dyadic_grid L p 0 17) (reference_dx L p)) es
                (sup_steps (body_steps L p r (length (dyadic_grid L p 0 17)))))"
proof -
  define d where "d = dyadic_grid L p 0 17"
  define dx where "dx = reference_dx L p"
  define es where "es = (\<lambda>r. map fst (recorded d dx (body_steps L p r (length d))))"
  define content where "content = header p @ concat (map (row_tokens L p d dx) [2..<16])"
  define ds where "ds = string_of_nat (nat p)"
  have p1: "1 \<le> p" using assms(2) by simp
  from find_best_interpolator_effect [OF assms(1) p1, of w] obtain w'
    where w': "find_best_interpolator L p w = Some w'"
      "files w' = (files w)(file_name p \<mapsto> content)"
    unfolding content_def d_def dx_def reference_dx_def by blast
  have ts: "to_string p = ds" using assms(2) by (simp add: to_string_def ds_def)
  have f: "files w' (''daubechies_'' @ ds @ ''_scaling_convergence.csv'') = Some content"
    unfolding w'(2) by (simp add: file_name_def ts)
  have n: "set ds \<subseteq> set ''0123456789''" "dec_value ds = nat p" "hd ds \<noteq> CHR ''0''"
    using string_of_nat_props [of "nat p"] assms(2) unfolding ds_def by auto
  have d2: "2 \<le> length d" unfolding d_def using assms(1) p1 by (intro reference_grid_size) simp_all
  have row: "atoms (row_tokens L p d dx r) = row_line r (es r) @ [Ch CHR ''\<newline>'']" for r
    using row_tokens_atoms [OF assms(2), of L d dx r] by (simp add: es_def)
  have len: "length (es r) + 1 = length (columns p)" for r
    using row_tokens_atoms [OF assms(2), of L d dx r] by (simp add: es_def)
  have err: "list_all2 (is_cell_error d dx) (es r) (sup_steps (body_steps L p r (length d)))"
    if "r \<in> {2..15}" for r
  proof -
    have "grids_ok L p r" "r < 31" using assms(1) that by simp_all
    from body_steps_sup_errors [OF this d2, of dx] show ?thesis
      unfolding es_def by (rule recorded_cell_errors)
  qed
  have "atoms content = concat (map (\<lambda>l. l @ [Ch CHR ''\<newline>''])
            (header_line p # map (\<lambda>r. row_line r (es r)) [2..<16]))"
    by (simp add: content_def atoms_append atoms_concat header_atoms row comp_def del: upt_Suc)
  moreover have "\<forall>l \<in> set (header_line p # map (\<lambda>r. row_line r (es r)) [2..<16]).
            Ch CHR ''\<newline>'' \<notin> set l"
    by (auto simp: header_no_newline row_line_no_newline simp del: upt_Suc)
  ultimately have "csv_rows (atoms content) = header_line p # map (\<lambda>r. row_line r (es r)) [2..<16]"
    by (simp only: csv_rows_lines)
  then have tab: "csv_table content = map (map Ch) (columns p) # map (\<lambda>r. data_cells r (es r)) [2..<16]"
    by (simp add: csv_table_def header_cells row_line_cells comp_def del: upt_Suc)
  have a: "length (csv_table content) = 15" unfolding tab by simp
  have b: "csv_table content ! 0 = map (map Ch) (columns p)" unfolding tab by simp
  have c: "\<forall>r \<in> {2..15}. \<exists>es'.
            csv_table content ! (r - 1) = [IntA (int r)] # map (\<lambda>e. [Ch CHR '' '', RealA e]) es'
            \<and> length es' + 1 = length (columns p)
            \<and> zip (tl (columns p)) (map fst (sup_steps (body_steps L p r (length d))))
              = take (length (columns p) - 1) column_schemes
            \<and> list_all2 (is_cell_error d dx) es' (sup_steps (body_steps L p r (length d)))"
  proof
    fix r :: nat assume rr: "r \<in> {2..15}"
    then have r: "2 \<le> r" "r \<le> 15" by simp_all
    have "csv_table content ! (r - 1) = data_cells r (es r)"
      unfolding tab using r by (rule nth_rows)
    then have "csv_table content ! (r - 1) = [IntA (int r)] # map (\<lambda>e. [Ch CHR '' '', RealA e]) (es r)
            \<and> length (es r) + 1 = length (columns p)
            \<and> zip (tl (columns p)) (map fst (sup_steps (body_steps L p r (length d))))
              = take (length (columns p) - 1) column_schemes
            \<and> list_all2 (is_cell_error d dx) (es r) (sup_steps (body_steps L p r (length d)))"
      using len [of r] err [OF rr] column_scheme_names [OF assms(2), of L r "length d"]
      by (simp add: data_cells_def)
    then show "\<exists>es'.
            csv_table content ! (r - 1) = [IntA (int r)] # map (\<lambda>e. [Ch CHR '' '', RealA e]) es'
            \<and> length es' + 1 = length (columns p)
            \<and> zip (tl (columns p)) (map fst (sup_steps (body_steps L p r (length d))))
              = take (length (columns p) - 1) column_schemes
            \<and> list_all2 (is_cell_error d dx) es' (sup_steps (body_steps L p r (length d)))" ..
  qed
  show ?thesis
    using w'(1) f n a b c unfolding d_def dx_def by blast
qed

theorem csv_output_witness:
  "\<exists>w' ds content. find_best_interpolator lib1 2 world0 = Some w'
      \<and> files w' (''daubechies_'' @ ds @ ''_scaling_convergence.csv'') = Some content
      \<and> dec_value ds = 2
      \<and> length (csv_table content) = 15
      \<and> csv_table content ! 0 = map (map Ch) (columns 2)"
proof -
  have h: "\<forall>r. grids_ok lib1 2 r" "(2::int) \<le> 2" by (simp_all add: grids_ok_lib1)
  from csv_output [OF h, of world0] obtain w' ds content
    where "find_best_interpolator lib1 2 world0 = Some w'"
      and "files w' (''daubechies_'' @ ds @ ''_scaling_convergence.csv'') = Some content"
      and "dec_value ds = nat 2"
      and "length (csv_table content) = 15"
      and "csv_table content ! 0 = map (map Ch) (columns 2)"
    by blast
  then show ?thesis by auto
qed

end
